theory Spec2Isabelle
  imports Main "HOL-Library.Word"
begin

unbundle bit_operations_syntax

section \<open>Data model of the LC-3 virtual machine (src/C/lc3.c)\<close>

type_synonym u16 = "16 word"
type_synonym u8 = "8 word"

text \<open>Memory mapped registers.\<close>

definition MR_KBSR :: u16 where [simp]: "MR_KBSR = 0xFE00"
definition MR_KBDR :: u16 where [simp]: "MR_KBDR = 0xFE02"

text \<open>Indices into the register array \<open>uint16_t reg[R_COUNT]\<close>.\<close>

definition R_R0 :: nat where [simp]: "R_R0 = 0"
definition R_R7 :: nat where [simp]: "R_R7 = 7"
definition R_PC :: nat where [simp]: "R_PC = 8"
definition R_COND :: nat where [simp]: "R_COND = 9"
definition R_COUNT :: nat where [simp]: "R_COUNT = 10"

text \<open>Condition flags.\<close>

definition FL_POS :: u16 where [simp]: "FL_POS = push_bit 0 1"
definition FL_ZRO :: u16 where [simp]: "FL_ZRO = push_bit 1 1"
definition FL_NEG :: u16 where [simp]: "FL_NEG = push_bit 2 1"

text \<open>Opcodes, in the order of the enum.\<close>

definition OP_BR :: u16 where [simp]: "OP_BR = 0"
definition OP_ADD :: u16 where [simp]: "OP_ADD = 1"
definition OP_LD :: u16 where [simp]: "OP_LD = 2"
definition OP_ST :: u16 where [simp]: "OP_ST = 3"
definition OP_JSR :: u16 where [simp]: "OP_JSR = 4"
definition OP_AND :: u16 where [simp]: "OP_AND = 5"
definition OP_LDR :: u16 where [simp]: "OP_LDR = 6"
definition OP_STR :: u16 where [simp]: "OP_STR = 7"
definition OP_RTI :: u16 where [simp]: "OP_RTI = 8"
definition OP_NOT :: u16 where [simp]: "OP_NOT = 9"
definition OP_LDI :: u16 where [simp]: "OP_LDI = 10"
definition OP_STI :: u16 where [simp]: "OP_STI = 11"
definition OP_JMP :: u16 where [simp]: "OP_JMP = 12"
definition OP_RES :: u16 where [simp]: "OP_RES = 13"
definition OP_LEA :: u16 where [simp]: "OP_LEA = 14"
definition OP_TRAP :: u16 where [simp]: "OP_TRAP = 15"

text \<open>Trap codes.\<close>

definition TRAP_GETC :: u16 where [simp]: "TRAP_GETC = 0x20"
definition TRAP_OUT :: u16 where [simp]: "TRAP_OUT = 0x21"
definition TRAP_PUTS :: u16 where [simp]: "TRAP_PUTS = 0x22"
definition TRAP_IN :: u16 where [simp]: "TRAP_IN = 0x23"
definition TRAP_PUTSP :: u16 where [simp]: "TRAP_PUTSP = 0x24"
definition TRAP_HALT :: u16 where [simp]: "TRAP_HALT = 0x25"

definition MEMORY_MAX :: nat where [simp]: "MEMORY_MAX = 2 ^ 16"

text \<open>
  The two global arrays. \<open>reg\<close> is only ever indexed below \<open>R_COUNT\<close> (by a
  three-bit field of the instruction or by one of the enum constants), \<open>memory\<close> by a
  \<open>uint16_t\<close>, so every access is in range.
\<close>

record vm =
  reg :: "nat \<Rightarrow> u16"
  memory :: "u16 \<Rightarrow> u16"

text \<open>
  The terminal the program talks to. \<open>ready\<close> lists the answers of the coming calls
  of \<open>check_key\<close> (whether \<open>select\<close> reports standard input readable; no more
  keys once the list is used up), \<open>stdin\<close> the bytes the coming calls of
  \<open>getchar\<close> deliver (end of file after the last one), \<open>stdout\<close> the bytes
  written so far. \<open>char_signed\<close> says whether plain \<open>char\<close> is a signed type on the
  platform.
\<close>

record host =
  ready :: "bool list"
  stdin :: "u8 list"
  stdout :: "u8 list"
  char_signed :: bool

definition check_key :: "host \<Rightarrow> bool \<times> host" where
  "check_key h = (case ready h of [] \<Rightarrow> (False, h) | k # ks \<Rightarrow> (k, h\<lparr>ready := ks\<rparr>))"

text \<open>\<open>getchar\<close> returns an \<open>int\<close>: the byte as an \<open>unsigned char\<close>, or \<open>EOF = -1\<close>.\<close>

definition getchar :: "host \<Rightarrow> int \<times> host" where
  "getchar h = (case stdin h of [] \<Rightarrow> (- 1, h) | b # bs \<Rightarrow> (uint b, h\<lparr>stdin := bs\<rparr>))"

definition putc :: "u8 \<Rightarrow> host \<Rightarrow> host" where
  "putc c h = h\<lparr>stdout := stdout h @ [c]\<rparr>"

definition bytes_of :: "string \<Rightarrow> u8 list" where
  "bytes_of cs = map (\<lambda>c. of_nat (of_char c)) cs"

definition write_string :: "string \<Rightarrow> host \<Rightarrow> host" where
  "write_string cs h = h\<lparr>stdout := stdout h @ bytes_of cs\<rparr>"

text \<open>The conversion \<open>(uint16_t) c\<close> of a plain \<open>char\<close>.\<close>

definition char_to_u16 :: "host \<Rightarrow> u8 \<Rightarrow> u16" where
  "char_to_u16 h c = (if char_signed h then scast c else ucast c)"

section \<open>Helpers\<close>

definition update_flags :: "nat \<Rightarrow> vm \<Rightarrow> vm" where
  "update_flags r s =
     (if reg s r = 0 then s\<lparr>reg := (reg s)(R_COND := FL_ZRO)\<rparr>
      else if drop_bit 15 (reg s r) \<noteq> 0 then s\<lparr>reg := (reg s)(R_COND := FL_NEG)\<rparr>
      else s\<lparr>reg := (reg s)(R_COND := FL_POS)\<rparr>)"

text \<open>
  \<open>sign_extend\<close> of lc3.c. The operands of \<open>|\<close> are promoted to \<open>int\<close> (32 bits),
  and the result is converted back to \<open>uint16_t\<close>. The C expression is defined for
  \<open>1 \<le> bit_count \<le> 15\<close>; every call passes 5, 6, 9 or 11.
\<close>

definition sign_extend :: "u16 \<Rightarrow> nat \<Rightarrow> u16" where
  "sign_extend x bit_count =
     (if drop_bit (bit_count - 1) x AND 1 \<noteq> 0
      then ucast ((ucast x :: 32 word) OR push_bit bit_count (0xFFFF :: 32 word))
      else x)"

text \<open>
  \<open>sign_extend\<close> of the draft main.c: the statement \<open>x != (0xFFFF << bit_count);\<close>
  compares and discards the result, so \<open>x\<close> is returned as it came.
\<close>

definition sign_extend_draft :: "u16 \<Rightarrow> nat \<Rightarrow> u16" where
  "sign_extend_draft x bit_count =
     (if drop_bit (bit_count - 1) x AND 1 \<noteq> 0 then x else x)"

definition swap16 :: "u16 \<Rightarrow> u16" where
  "swap16 x = push_bit 8 x OR drop_bit 8 x"

section \<open>Memory access\<close>

definition mem_write :: "u16 \<Rightarrow> u16 \<Rightarrow> vm \<Rightarrow> vm" where
  "mem_write address data s = s\<lparr>memory := (memory s)(address := data)\<rparr>"

definition mem_read :: "u16 \<Rightarrow> vm \<Rightarrow> host \<Rightarrow> u16 \<times> vm \<times> host" where
  "mem_read address s h =
     (if address = MR_KBSR then
        (case check_key h of (k, h1) \<Rightarrow>
           if k then
             (let s1 = s\<lparr>memory := (memory s)(MR_KBSR := push_bit 15 1)\<rparr>
              in case getchar h1 of (c, h2) \<Rightarrow>
                   let s2 = s1\<lparr>memory := (memory s1)(MR_KBDR := word_of_int c)\<rparr>
                   in (memory s2 address, s2, h2))
           else
             (let s1 = s\<lparr>memory := (memory s)(MR_KBSR := 0)\<rparr>
              in (memory s1 address, s1, h1)))
      else (memory s address, s, h))"

section \<open>The instructions\<close>

text \<open>
  One definition for each case of the \<open>switch\<close> in \<open>main\<close>. They run after the fetch,
  so \<open>reg s R_PC\<close> is the incremented program counter.
\<close>

definition op_add :: "u16 \<Rightarrow> vm \<Rightarrow> vm" where
  "op_add instr s =
     (let r0 = unat (drop_bit 9 instr AND 0x7);
          r1 = unat (drop_bit 6 instr AND 0x7);
          imm_flag = drop_bit 5 instr AND 0x1
      in update_flags r0
           (if imm_flag \<noteq> 0 then
              (let imme = sign_extend (instr AND 0x1F) 5
               in s\<lparr>reg := (reg s)(r0 := reg s r1 + imme)\<rparr>)
            else
              (let r2 = unat (instr AND 0x7)
               in s\<lparr>reg := (reg s)(r0 := reg s r1 + reg s r2)\<rparr>)))"

definition op_and :: "u16 \<Rightarrow> vm \<Rightarrow> vm" where
  "op_and instr s =
     (let r0 = unat (drop_bit 9 instr AND 0x7);
          r1 = unat (drop_bit 6 instr AND 0x7);
          imm_flag = drop_bit 5 instr AND 0x1
      in update_flags r0
           (if imm_flag \<noteq> 0 then
              (let imme = sign_extend (instr AND 0x1F) 5
               in s\<lparr>reg := (reg s)(r0 := reg s r1 AND imme)\<rparr>)
            else
              (let r2 = unat (instr AND 0x7)
               in s\<lparr>reg := (reg s)(r0 := reg s r1 AND reg s r2)\<rparr>)))"

definition op_not :: "u16 \<Rightarrow> vm \<Rightarrow> vm" where
  "op_not instr s =
     (let r0 = unat (drop_bit 9 instr AND 0x7);
          r1 = unat (drop_bit 6 instr AND 0x7)
      in update_flags r0 (s\<lparr>reg := (reg s)(r0 := NOT (reg s r1))\<rparr>))"

definition op_br :: "u16 \<Rightarrow> vm \<Rightarrow> vm" where
  "op_br instr s =
     (let pc_offset = sign_extend (instr AND 0x1FF) 9;
          cond_flag = drop_bit 9 instr AND 0x7
      in if cond_flag AND reg s R_COND \<noteq> 0
         then s\<lparr>reg := (reg s)(R_PC := reg s R_PC + pc_offset)\<rparr>
         else s)"

definition op_jmp :: "u16 \<Rightarrow> vm \<Rightarrow> vm" where
  "op_jmp instr s =
     (let r1 = unat (drop_bit 6 instr AND 0x7)
      in s\<lparr>reg := (reg s)(R_PC := reg s r1)\<rparr>)"

definition op_jsr :: "u16 \<Rightarrow> vm \<Rightarrow> vm" where
  "op_jsr instr s =
     (let bit11 = drop_bit 11 instr AND 0x1;
          s1 = s\<lparr>reg := (reg s)(R_R7 := reg s R_PC)\<rparr>
      in if bit11 = 0 then
           (let r1 = unat (drop_bit 6 instr AND 0x7)
            in s1\<lparr>reg := (reg s1)(R_PC := reg s1 r1)\<rparr>)
         else
           (let pc_offset = sign_extend (instr AND 0x7FF) 11
            in s1\<lparr>reg := (reg s1)(R_PC := reg s1 R_PC + pc_offset)\<rparr>))"

definition op_ld :: "u16 \<Rightarrow> vm \<Rightarrow> host \<Rightarrow> vm \<times> host" where
  "op_ld instr s h =
     (let r0 = unat (drop_bit 9 instr AND 0x7);
          pc_offset = sign_extend (instr AND 0x1FF) 9
      in case mem_read (reg s R_PC + pc_offset) s h of (v, s1, h1) \<Rightarrow>
           (update_flags r0 (s1\<lparr>reg := (reg s1)(r0 := v)\<rparr>), h1))"

definition op_ldi :: "u16 \<Rightarrow> vm \<Rightarrow> host \<Rightarrow> vm \<times> host" where
  "op_ldi instr s h =
     (let r0 = unat (drop_bit 9 instr AND 0x7);
          pc_offset = sign_extend (instr AND 0x1FF) 9
      in case mem_read (reg s R_PC + pc_offset) s h of (a, s1, h1) \<Rightarrow>
         case mem_read a s1 h1 of (v, s2, h2) \<Rightarrow>
           (update_flags r0 (s2\<lparr>reg := (reg s2)(r0 := v)\<rparr>), h2))"

definition op_ldr :: "u16 \<Rightarrow> vm \<Rightarrow> host \<Rightarrow> vm \<times> host" where
  "op_ldr instr s h =
     (let r0 = unat (drop_bit 9 instr AND 0x7);
          r1 = unat (drop_bit 6 instr AND 0x7);
          pc_offset = sign_extend (instr AND 0x3F) 6
      in case mem_read (reg s r1 + pc_offset) s h of (v, s1, h1) \<Rightarrow>
           (update_flags r0 (s1\<lparr>reg := (reg s1)(r0 := v)\<rparr>), h1))"

definition op_lea :: "u16 \<Rightarrow> vm \<Rightarrow> vm" where
  "op_lea instr s =
     (let r0 = unat (drop_bit 9 instr AND 0x7);
          pc_offset = sign_extend (instr AND 0x1FF) 9
      in update_flags r0 (s\<lparr>reg := (reg s)(r0 := reg s R_PC + pc_offset)\<rparr>))"

definition op_st :: "u16 \<Rightarrow> vm \<Rightarrow> vm" where
  "op_st instr s =
     (let r1 = unat (drop_bit 9 instr AND 0x7);
          pc_offset = sign_extend (instr AND 0x1FF) 9
      in mem_write (reg s R_PC + pc_offset) (reg s r1) s)"

definition op_sti :: "u16 \<Rightarrow> vm \<Rightarrow> host \<Rightarrow> vm \<times> host" where
  "op_sti instr s h =
     (let r1 = unat (drop_bit 9 instr AND 0x7);
          pc_offset = sign_extend (instr AND 0x1FF) 9
      in case mem_read (reg s R_PC + pc_offset) s h of (a, s1, h1) \<Rightarrow>
           (mem_write a (reg s1 r1) s1, h1))"

definition op_str :: "u16 \<Rightarrow> vm \<Rightarrow> vm" where
  "op_str instr s =
     (let r1 = unat (drop_bit 9 instr AND 0x7);
          r2 = unat (drop_bit 6 instr AND 0x7);
          pc_offset = sign_extend (instr AND 0x3F) 6
      in mem_write (reg s r2 + pc_offset) (reg s r1) s)"

subsection \<open>Traps\<close>

text \<open>
  The loops of \<open>TRAP_PUTS\<close> and \<open>TRAP_PUTSP\<close> walk a pointer \<open>c\<close> up the array
  \<open>memory\<close> until they read a zero word. \<open>c\<close> is the index of the pointer; reading
  at \<open>MEMORY_MAX\<close> is outside the array, which is undefined behaviour (\<open>None\<close>).
\<close>

function puts_loop :: "(u16 \<Rightarrow> u16) \<Rightarrow> nat \<Rightarrow> host \<Rightarrow> host option" where
  "puts_loop m c h =
     (if MEMORY_MAX \<le> c then None
      else if m (of_nat c) = 0 then Some h
      else puts_loop m (c + 1) (putc (ucast (m (of_nat c))) h))"
  by pat_completeness auto
termination
  by (relation "measure (\<lambda>(m, c, h). MEMORY_MAX - c)") auto

function putsp_loop :: "(u16 \<Rightarrow> u16) \<Rightarrow> nat \<Rightarrow> host \<Rightarrow> host option" where
  "putsp_loop m c h =
     (if MEMORY_MAX \<le> c then None
      else if m (of_nat c) = 0 then Some h
      else
        (let char1 = ucast (m (of_nat c) AND 0xFF) :: u8;
             h1 = putc char1 h;
             char2 = ucast (drop_bit 8 (m (of_nat c))) :: u8;
             h2 = (if char2 \<noteq> 0 then putc char2 h1 else h1)
         in putsp_loop m (c + 1) h2))"
  by pat_completeness auto
termination
  by (relation "measure (\<lambda>(m, c, h). MEMORY_MAX - c)") auto

text \<open>
  What one turn of the loop in \<open>main\<close> leaves behind: the loop goes on
  (\<open>running\<close> still 1), \<open>running\<close> was cleared, \<open>abort()\<close> was called, or the
  behaviour is undefined.
\<close>

datatype outcome = Continue vm host | Halt vm host | Abort | Undefined

definition op_trap :: "u16 \<Rightarrow> vm \<Rightarrow> host \<Rightarrow> outcome" where
  "op_trap instr s h =
     (let s1 = s\<lparr>reg := (reg s)(R_R7 := reg s R_PC)\<rparr>;
          code = instr AND 0xFF
      in if code = TRAP_GETC then
           (case getchar h of (c, h1) \<Rightarrow>
              Continue (update_flags R_R0 (s1\<lparr>reg := (reg s1)(R_R0 := word_of_int c)\<rparr>)) h1)
         else if code = TRAP_OUT then
           Continue s1 (putc (ucast (reg s1 R_R0)) h)
         else if code = TRAP_PUTS then
           (case puts_loop (memory s1) (unat (reg s1 R_R0)) h of
              None \<Rightarrow> Undefined
            | Some h1 \<Rightarrow> Continue s1 h1)
         else if code = TRAP_IN then
           (case getchar (write_string ''Enter a character: '' h) of (i, h1) \<Rightarrow>
              let c = word_of_int i :: u8;
                  h2 = putc c h1
              in Continue (update_flags R_R0 (s1\<lparr>reg := (reg s1)(R_R0 := char_to_u16 h c)\<rparr>)) h2)
         else if code = TRAP_PUTSP then
           (case putsp_loop (memory s1) (unat (reg s1 R_R0)) h of
              None \<Rightarrow> Undefined
            | Some h1 \<Rightarrow> Continue s1 h1)
         else if code = TRAP_HALT then
           Halt s1 (write_string (''HALT'' @ [CHR 0x0A]) h)
         else Continue s1 h)"

section \<open>The loop of main\<close>

text \<open>\<open>mem_read(reg[R_PC]++)\<close>: the old program counter is the address, and the
  increment is done before \<open>mem_read\<close> runs.\<close>

definition fetch :: "vm \<Rightarrow> host \<Rightarrow> u16 \<times> vm \<times> host" where
  "fetch s h =
     (let pc = reg s R_PC
      in mem_read pc (s\<lparr>reg := (reg s)(R_PC := pc + 1)\<rparr>) h)"

definition execute :: "u16 \<Rightarrow> vm \<Rightarrow> host \<Rightarrow> outcome" where
  "execute instr s h =
     (let op = drop_bit 12 instr
      in if op = OP_ADD then Continue (op_add instr s) h
         else if op = OP_AND then Continue (op_and instr s) h
         else if op = OP_NOT then Continue (op_not instr s) h
         else if op = OP_BR then Continue (op_br instr s) h
         else if op = OP_JMP then Continue (op_jmp instr s) h
         else if op = OP_JSR then Continue (op_jsr instr s) h
         else if op = OP_LD then (case op_ld instr s h of (s1, h1) \<Rightarrow> Continue s1 h1)
         else if op = OP_LDI then (case op_ldi instr s h of (s1, h1) \<Rightarrow> Continue s1 h1)
         else if op = OP_LDR then (case op_ldr instr s h of (s1, h1) \<Rightarrow> Continue s1 h1)
         else if op = OP_LEA then Continue (op_lea instr s) h
         else if op = OP_ST then Continue (op_st instr s) h
         else if op = OP_STI then (case op_sti instr s h of (s1, h1) \<Rightarrow> Continue s1 h1)
         else if op = OP_STR then Continue (op_str instr s) h
         else if op = OP_TRAP then op_trap instr s h
         else Abort)"

definition step :: "vm \<Rightarrow> host \<Rightarrow> outcome" where
  "step s h = (case fetch s h of (instr, s1, h1) \<Rightarrow> execute instr s1 h1)"

text \<open>
  How the process ends: \<open>main\<close> returns (status 0, reached after \<open>TRAP_HALT\<close>),
  \<open>abort()\<close> raises \<open>SIGABRT\<close>, or the behaviour is undefined.
\<close>

datatype status = Exited int | Signaled nat | Undefined_behaviour

definition SIGABRT :: nat where [simp]: "SIGABRT = 6"

text \<open>
  \<open>while (running) { ... }\<close>, with fuel: \<open>None\<close> when the loop is still running
  after \<open>n\<close> turns.
\<close>

fun run :: "nat \<Rightarrow> vm \<Rightarrow> host \<Rightarrow> status option" where
  "run 0 s h = None"
| "run (Suc n) s h =
     (case step s h of
        Continue s1 h1 \<Rightarrow> run n s1 h1
      | Halt s1 h1 \<Rightarrow> Some (Exited 0)
      | Abort \<Rightarrow> Some (Signaled SIGABRT)
      | Undefined \<Rightarrow> Some Undefined_behaviour)"

definition vm_of :: "outcome \<Rightarrow> vm option" where
  "vm_of out = (case out of Continue s h \<Rightarrow> Some s | Halt s h \<Rightarrow> Some s | _ \<Rightarrow> None)"

text \<open>The start of \<open>main\<close> once the images are loaded: the globals that are set
  before the loop.\<close>

definition PC_START :: u16 where [simp]: "PC_START = 0x3000"

definition boot :: "vm \<Rightarrow> vm" where
  "boot s = s\<lparr>reg := (reg s)(R_COND := FL_ZRO, R_PC := PC_START)\<rparr>"

section \<open>The image loader\<close>

text \<open>
  A file is the list of its bytes. \<open>fread\<close> copies them into \<open>uint16_t\<close> objects; on
  the little-endian host the program is written for (it swaps the bytes of every word
  it has read), the byte that comes first is the low one.
\<close>

definition le_word :: "u8 \<Rightarrow> u8 \<Rightarrow> u16" where
  "le_word b0 b1 = ucast b0 OR push_bit 8 (ucast b1)"

text \<open>The word whose high byte comes first: what the image format means by two bytes.\<close>

definition be_word :: "u8 \<Rightarrow> u8 \<Rightarrow> u16" where
  "be_word b0 b1 = push_bit 8 (ucast b0) OR ucast b1"

text \<open>The complete elements that \<open>fread(p, sizeof(uint16_t), n, file)\<close> reads.\<close>

fun fread_words :: "nat \<Rightarrow> u8 list \<Rightarrow> u16 list" where
  "fread_words (Suc n) (b0 # b1 # bs) = le_word b0 b1 # fread_words n bs"
| "fread_words n bs = []"

fun store_words :: "nat \<Rightarrow> u16 list \<Rightarrow> (u16 \<Rightarrow> u16) \<Rightarrow> (u16 \<Rightarrow> u16)" where
  "store_words p [] m = m"
| "store_words p (w # ws) m = store_words (p + 1) ws (m(of_nat p := w))"

text \<open>\<open>while (len > 0) { len--; *p = swap16(*p); ++p; }\<close>\<close>

fun swap_loop :: "nat \<Rightarrow> nat \<Rightarrow> (u16 \<Rightarrow> u16) \<Rightarrow> (u16 \<Rightarrow> u16)" where
  "swap_loop 0 p m = m"
| "swap_loop (Suc len) p m = swap_loop len (p + 1) (m(of_nat p := swap16 (m (of_nat p))))"

text \<open>
  \<open>read_image_file\<close>. \<open>MEMORY_MAX - origin\<close> is computed in \<open>int\<close> and converted to
  the \<open>uint16_t max_read\<close>. When the file ends in the middle of an element, \<open>fread\<close>
  does not count that element, and C leaves its value indeterminate: \<open>partial\<close> is
  the value it ends up with. A file with fewer than two bytes leaves \<open>origin\<close>
  itself indeterminate (\<open>None\<close>).
\<close>

definition read_image_file :: "u16 \<Rightarrow> u8 list \<Rightarrow> vm \<Rightarrow> vm option" where
  "read_image_file partial file s =
     (case file of
        b0 # b1 # rest \<Rightarrow>
          let origin = swap16 (le_word b0 b1);
              max_read = (word_of_int (int MEMORY_MAX - uint origin) :: u16);
              p = unat origin;
              ws = fread_words (unat max_read) rest;
              len = length ws;
              m1 = store_words p ws (memory s);
              m2 = (if len < unat max_read \<and> length rest = 2 * len + 1
                    then m1(of_nat (p + len) := partial) else m1)
          in Some (s\<lparr>memory := swap_loop len p m2\<rparr>)
      | _ \<Rightarrow> None)"

text \<open>\<open>read_image\<close>: \<open>None\<close> for the file when \<open>fopen\<close> fails.\<close>

definition read_image :: "u16 \<Rightarrow> u8 list option \<Rightarrow> vm \<Rightarrow> (int \<times> vm) option" where
  "read_image partial f s =
     (case f of
        None \<Rightarrow> Some (0, s)
      | Some file \<Rightarrow> map_option (Pair 1) (read_image_file partial file s))"

section \<open>Notions the properties are stated with\<close>

text \<open>The instruction word that the fetch of this turn of the loop returns.\<close>

definition fetched :: "vm \<Rightarrow> host \<Rightarrow> u16" where
  "fetched s h = fst (fetch s h)"

text \<open>
  The offset \<open>\<Delta>\<close> of the specification: the program counter after an instruction is
  \<open>PC_before + 1 + \<Delta>\<close>. \<open>s\<close> is the state before the instruction. For a
  register-form JSR the specification's row is \<open>R7 = PC; PC = R[BaseR]\<close>: the base
  register is read after \<open>R7\<close> has received the incremented program counter.
\<close>

definition spec_delta :: "u16 \<Rightarrow> vm \<Rightarrow> u16" where
  "spec_delta instr s =
     (let op = drop_bit 12 instr;
          BaseR = unat (drop_bit 6 instr AND 0x7);
          pc1 = reg s R_PC + 1
      in if op = OP_BR then
           (if (drop_bit 9 instr AND 0x7) AND reg s R_COND \<noteq> 0
            then sign_extend (instr AND 0x1FF) 9 else 0)
         else if op = OP_JSR then
           (if bit instr 11 then sign_extend (instr AND 0x7FF) 11
            else ((reg s)(R_R7 := pc1)) BaseR - pc1)
         else if op = OP_JMP then reg s BaseR - pc1
         else 0)"

text \<open>
  The address a store instruction writes to, when \<open>instr\<close> is one; \<open>s\<close> and \<open>h\<close> are
  the state and the terminal after the fetch.
\<close>

definition store_address :: "u16 \<Rightarrow> vm \<Rightarrow> host \<Rightarrow> u16 option" where
  "store_address instr s h =
     (let op = drop_bit 12 instr
      in if op = OP_ST then Some (reg s R_PC + sign_extend (instr AND 0x1FF) 9)
         else if op = OP_STI then
           Some (fst (mem_read (reg s R_PC + sign_extend (instr AND 0x1FF) 9) s h))
         else if op = OP_STR then
           Some (reg s (unat (drop_bit 6 instr AND 0x7)) + sign_extend (instr AND 0x3F) 6)
         else None)"

section \<open>Concrete machines for the examples\<close>

definition zero_vm :: vm where
  "zero_vm = \<lparr>reg = (\<lambda>_. 0), memory = (\<lambda>_. 0)\<rparr>"

definition quiet_host :: host where
  "quiet_host = \<lparr>ready = [], stdin = [], stdout = [], char_signed = True\<rparr>"

text \<open>The machine as \<open>main\<close> starts it, with one instruction word at \<open>PC_START\<close>.\<close>

definition one_instr :: "u16 \<Rightarrow> vm" where
  "one_instr instr = boot (zero_vm\<lparr>memory := (\<lambda>_. 0)(PC_START := instr)\<rparr>)"

text \<open>A terminal with one key waiting: the letter A.\<close>

definition typing_host :: host where
  "typing_host = \<lparr>ready = [True], stdin = [0x41], stdout = [], char_signed = True\<rparr>"

text \<open>Whether the process ended the way a successful run does: \<open>main\<close> returned 0.\<close>

definition successful :: "status \<Rightarrow> bool" where
  "successful st = (st = Exited 0)"

text \<open>\<open>JSRR R7\<close> (\<open>0x41C0\<close>) at \<open>PC_START\<close>, with \<open>R7 = 0x4000\<close>.\<close>

definition jsrr_vm :: vm where
  "jsrr_vm = (one_instr 0x41C0)\<lparr>reg := (reg (one_instr 0x41C0))(R_R7 := 0x4000)\<rparr>"

text \<open>The program counter a turn of the loop leaves, when it leaves a state.\<close>

definition pc_after :: "outcome \<Rightarrow> u16 option" where
  "pc_after out = map_option (\<lambda>s. reg s R_PC) (vm_of out)"

text \<open>\<open>COND\<close> holds exactly one of the three flags.\<close>

definition cond_valid :: "vm \<Rightarrow> bool" where
  "cond_valid s = (reg s R_COND = FL_NEG \<or> reg s R_COND = FL_ZRO \<or> reg s R_COND = FL_POS)"

text \<open>The content of register \<open>r\<close> that a turn of the loop leaves, when it leaves a state.\<close>

definition reg_after :: "nat \<Rightarrow> outcome \<Rightarrow> u16 option" where
  "reg_after r out = map_option (\<lambda>s. reg s r) (vm_of out)"

text \<open>\<open>ST R1, #1\<close> (\<open>0x3201\<close>) at \<open>PC_START\<close>, with \<open>R1 = 0xBEEF\<close>.\<close>

definition store_vm :: vm where
  "store_vm = (one_instr 0x3201)\<lparr>reg := (reg (one_instr 0x3201))(1 := 0xBEEF)\<rparr>"

section \<open>Basic facts\<close>

lemma field3_less: "unat ((x::u16) AND 0x7) < 8"
proof -
  have "x AND 0x7 \<le> 0x7" by (rule word_and_le1)
  then have "unat (x AND 0x7) \<le> unat (0x7 :: u16)" by (simp only: word_le_nat_alt)
  then show ?thesis by simp
qed

lemma top_bit: "(drop_bit 15 (x::u16) \<noteq> 0) = bit x 15"
proof
  assume "drop_bit 15 x \<noteq> 0"
  then obtain k where "bit (drop_bit 15 x) k" by (auto simp: bit_eq_iff)
  then have "bit x (k + 15)" by (simp add: bit_drop_bit_eq add.commute)
  moreover from this have "k + 15 < 16" using bit_imp_le_length [of x "k + 15"] by simp
  then have "k = 0" by simp
  ultimately show "bit x 15" by simp
next
  assume "bit x 15"
  then have "bit (drop_bit 15 x) 0" by (simp add: bit_drop_bit_eq)
  then show "drop_bit 15 x \<noteq> 0" by auto
qed

lemma reg_update_flags:
  "reg (update_flags r s) =
     (reg s)(R_COND := (if reg s r = 0 then FL_ZRO else if bit (reg s r) 15 then FL_NEG else FL_POS))"
  by (simp add: update_flags_def top_bit)

lemma update_flags_sound:
  assumes "r < 8" and "s' = update_flags r t"
  shows "reg s' R_COND \<in> {FL_NEG, FL_ZRO, FL_POS} \<and>
     (reg s' R_COND = FL_ZRO \<longleftrightarrow> reg s' r = 0) \<and>
     (reg s' R_COND = FL_NEG \<longleftrightarrow> bit (reg s' r) 15) \<and>
     (reg s' R_COND = FL_POS \<longleftrightarrow> reg s' r \<noteq> 0 \<and> \<not> bit (reg s' r) 15)"
  using assms by (auto simp: reg_update_flags)

section \<open>Condition flags after a register write\<close>

lemma writes_via_update_flags:
  assumes "execute i s1 h1 = Continue s' h'"
    and "drop_bit 12 i \<in> {OP_ADD, OP_AND, OP_NOT, OP_LD, OP_LDI, OP_LDR, OP_LEA}
           \<and> rd = unat (drop_bit 9 i AND 0x7)
       \<or> drop_bit 12 i = OP_TRAP \<and> i AND 0xFF \<in> {TRAP_GETC, TRAP_IN} \<and> rd = R_R0"
  shows "\<exists>t. s' = update_flags rd t"
  using assms
  apply (simp add: execute_def)
  apply (elim disjE conjE)
  apply (auto simp: op_add_def op_and_def op_not_def op_ld_def op_ldi_def op_ldr_def
      op_lea_def op_trap_def Let_def split: prod.splits if_splits)
  done

lemma writes_continue:
  assumes "drop_bit 12 i \<in> {OP_ADD, OP_AND, OP_NOT, OP_LD, OP_LDI, OP_LDR, OP_LEA}
           \<and> rd = unat (drop_bit 9 i AND 0x7)
       \<or> drop_bit 12 i = OP_TRAP \<and> i AND 0xFF \<in> {TRAP_GETC, TRAP_IN} \<and> rd = R_R0"
  shows "\<exists>s' h'. execute i s1 h1 = Continue s' h'"
  using assms
  apply (simp add: execute_def)
  apply (elim disjE conjE)
  apply (auto simp: op_trap_def Let_def split: prod.splits)
  done

text \<open>
  Claim C1. Let \<open>i\<close> be the fetched instruction. When \<open>i\<close> is ADD, AND, NOT, LD, LDI,
  LDR or LEA (with \<open>rd\<close> its destination field, bits 11..9), or the trap GETC or IN
  (with \<open>rd = R0\<close>), the turn of the loop completes and afterwards \<open>COND\<close> is one of
  \<open>FL_NEG = 4\<close>, \<open>FL_ZRO = 2\<close>, \<open>FL_POS = 1\<close> (three different values, so never
  none and never two of them): \<open>FL_ZRO\<close> exactly when the final \<open>Rd\<close> is 0,
  \<open>FL_NEG\<close> exactly when bit 15 of the final \<open>Rd\<close> is set, \<open>FL_POS\<close> otherwise.
\<close>

theorem cond_after_register_write:
  assumes "i = fetched s h"
    and "drop_bit 12 i \<in> {OP_ADD, OP_AND, OP_NOT, OP_LD, OP_LDI, OP_LDR, OP_LEA}
           \<and> rd = unat (drop_bit 9 i AND 0x7)
       \<or> drop_bit 12 i = OP_TRAP \<and> i AND 0xFF \<in> {TRAP_GETC, TRAP_IN} \<and> rd = R_R0"
  shows "\<exists>s' h'. step s h = Continue s' h' \<and>
     reg s' R_COND \<in> {FL_NEG, FL_ZRO, FL_POS} \<and>
     (reg s' R_COND = FL_ZRO \<longleftrightarrow> reg s' rd = 0) \<and>
     (reg s' R_COND = FL_NEG \<longleftrightarrow> bit (reg s' rd) 15) \<and>
     (reg s' R_COND = FL_POS \<longleftrightarrow> reg s' rd \<noteq> 0 \<and> \<not> bit (reg s' rd) 15)"
proof -
  obtain s1 h1 where f: "fetch s h = (i, s1, h1)"
    using assms(1) by (cases "fetch s h") (simp add: fetched_def)
  from writes_continue [OF assms(2)]
  obtain s' h' where e: "execute i s1 h1 = Continue s' h'" by blast
  from writes_via_update_flags [OF e assms(2)] obtain t where t: "s' = update_flags rd t" ..
  have "unat (drop_bit 9 i AND 0x7) < 8" by (rule field3_less)
  moreover have "rd = unat (drop_bit 9 i AND 0x7) \<or> rd = 0" using assms(2) by fastforce
  ultimately have "rd < 8" by auto
  note fl = update_flags_sound [OF this t]
  have st: "step s h = Continue s' h'" using e f by (simp add: step_def)
  show ?thesis
    apply (rule exI [of _ s'], rule exI [of _ h'])
    apply (rule conjI [OF st fl])
    done
qed

text \<open>\<open>ADD R2, R2, #-1\<close> (\<open>0x14BF\<close>) on the freshly started machine.\<close>

theorem cond_after_register_write_witness:
  "0x14BF = fetched (one_instr 0x14BF) quiet_host \<and>
   (\<exists>s' h'. step (one_instr 0x14BF) quiet_host = Continue s' h' \<and>
     reg s' R_COND \<in> {FL_NEG, FL_ZRO, FL_POS} \<and>
     (reg s' R_COND = FL_ZRO \<longleftrightarrow> reg s' 2 = 0) \<and>
     (reg s' R_COND = FL_NEG \<longleftrightarrow> bit (reg s' 2) 15) \<and>
     (reg s' R_COND = FL_POS \<longleftrightarrow> reg s' 2 \<noteq> 0 \<and> \<not> bit (reg s' 2) 15))"
proof -
  have a: "0x14BF = fetched (one_instr 0x14BF) quiet_host" by code_simp
  have b: "drop_bit 12 (0x14BF :: u16) \<in> {OP_ADD, OP_AND, OP_NOT, OP_LD, OP_LDI, OP_LDR, OP_LEA}
             \<and> 2 = unat (drop_bit 9 (0x14BF :: u16) AND 0x7)
           \<or> drop_bit 12 (0x14BF :: u16) = OP_TRAP
             \<and> (0x14BF :: u16) AND 0xFF \<in> {TRAP_GETC, TRAP_IN} \<and> 2 = R_R0"
    by simp
  from a cond_after_register_write [OF a b] show ?thesis by (rule conjI)
qed

section \<open>Sign extension\<close>

lemma sign_bit_test: "(drop_bit m (x::u16) AND 1 \<noteq> 0) = bit x m"
  by (simp add: bit_iff_and_drop_bit_eq_1 and_one_eq mod_2_eq_odd bit_iff_odd_drop_bit)

lemma bit_ffff_int: "bit (0xFFFF :: int) j = (j < 16)"
proof -
  have e: "(0xFFFF :: int) = mask 16" by (simp add: mask_eq_exp_minus_1)
  show ?thesis by (subst e) (auto simp add: bit_mask_iff)
qed

lemma bit_sign_extend:
  "1 \<le> n \<Longrightarrow> n \<le> 15 \<Longrightarrow>
   bit (sign_extend x n) k = (k < 16 \<and> (if k < n then bit x k else (bit x k \<or> bit x (n - 1))))"
  apply (simp add: sign_extend_def sign_bit_test bit_simps)
  apply (auto simp: bit_simps bit_ffff_int dest: bit_imp_le_length)
  done

lemma sign_extend_or:
  "1 \<le> n \<Longrightarrow> n \<le> 15 \<Longrightarrow>
   sign_extend x n = (if bit x (n - 1) then x OR push_bit n 0xFFFF else x)"
  apply (rule bit_word_eqI)
  apply (auto simp: bit_sign_extend bit_simps bit_ffff_int)
  done

lemma sign_extend_truncate:
  "1 \<le> n \<Longrightarrow> n \<le> 15 \<Longrightarrow> take_bit n (sign_extend x n) = take_bit n x"
  apply (rule bit_word_eqI)
  apply (auto simp: bit_sign_extend bit_simps)
  done

lemma sign_extend_mod:
  "1 \<le> n \<Longrightarrow> n \<le> 15 \<Longrightarrow> unat (sign_extend x n) mod 2 ^ n = unat x mod 2 ^ n"
proof -
  assume "1 \<le> n" "n \<le> 15"
  then have "unat (take_bit n (sign_extend x n)) = unat (take_bit n x)"
    by (simp add: sign_extend_truncate)
  then have "take_bit n (unat (sign_extend x n)) = take_bit n (unat x)"
    by (simp only: unsigned_take_bit_eq)
  then show ?thesis by (simp only: take_bit_eq_mod)
qed

lemma sign_extend_replicates:
  assumes "1 \<le> n" "n \<le> 15" "take_bit n x = x" "k < 16"
  shows "bit (sign_extend x n) k = (if k < n then bit x k else bit x (n - 1))"
proof -
  have "\<not> bit x k" if "n \<le> k"
  proof -
    have "bit (take_bit n x) k = False" using that by (simp add: bit_take_bit_iff)
    then show ?thesis using assms(3) by simp
  qed
  then show ?thesis using assms by (auto simp: bit_sign_extend)
qed

lemma sign_extend_signed:
  assumes "1 \<le> n" "n \<le> 15" "take_bit n x = x"
  shows "sign_extend x n = signed_take_bit (n - 1) x"
proof (rule bit_word_eqI)
  fix k
  assume "k < LENGTH(16)"
  then have k: "k < 16" by simp
  consider "k < n - 1" | "k = n - 1" | "n \<le> k" by linarith
  then show "bit (sign_extend x n) k = bit (signed_take_bit (n - 1) x) k"
    using assms k
    by cases (auto simp add: sign_extend_replicates bit_signed_take_bit_iff min_def)
qed

text \<open>
  Claim C6. The helper of lc3.c has the properties the claim states (the lemmas
  above). The helper of main.c does not extend: for the five-bit field \<open>0x1F\<close>
  (that is, \<open>-1\<close>) it returns \<open>0x001F\<close>, where lc3.c's returns \<open>0xFFFF\<close>; bit
  4, the sign bit, is set and is not copied into bit 15.
\<close>

theorem sign_extend_draft_keeps_field:
  "sign_extend_draft 0x1F 5 = 0x001F \<and> sign_extend 0x1F 5 = 0xFFFF \<and>
   bit (0x1F :: u16) 4 \<and> \<not> bit (sign_extend_draft 0x1F 5) 15"
  by code_simp

lemma sign_extend_draft_id: "sign_extend_draft x n = x"
  by (simp add: sign_extend_draft_def)


section \<open>The keyboard registers\<close>

text \<open>
  Claim C4. A read of \<open>0xFE00\<close> when \<open>check_key\<close> reports no key returns 0 and
  stores 0 there. When \<open>check_key\<close> reports a key and \<open>getchar\<close> delivers the byte
  \<open>b\<close>, the read returns \<open>0x8000\<close> (bit 15 set), leaves \<open>b\<close> at \<open>0xFE02\<close>, and a
  read of \<open>0xFE02\<close> that follows returns \<open>b\<close>. A read of any other address returns
  the stored word and changes neither the memory nor the terminal.
\<close>

theorem mem_read_device:
  "(check_key h = (False, h1) \<longrightarrow>
      mem_read MR_KBSR s h = (0, s\<lparr>memory := (memory s)(MR_KBSR := 0)\<rparr>, h1)) \<and>
   (check_key h = (True, h1) \<and> getchar h1 = (uint (b :: u8), h2) \<longrightarrow>
      (\<exists>s1. mem_read MR_KBSR s h = (0x8000, s1, h2) \<and>
            memory s1 MR_KBSR = 0x8000 \<and> bit (memory s1 MR_KBSR) 15 \<and>
            memory s1 MR_KBDR = ucast b \<and>
            mem_read MR_KBDR s1 h2 = (ucast b, s1, h2))) \<and>
   (a \<noteq> MR_KBSR \<longrightarrow> mem_read a s h = (memory s a, s, h))"
  by (simp add: mem_read_def Let_def)

theorem mem_read_device_witness:
  "check_key quiet_host = (False, quiet_host) \<and>
   mem_read MR_KBSR zero_vm quiet_host
     = (0, zero_vm\<lparr>memory := (memory zero_vm)(MR_KBSR := 0)\<rparr>, quiet_host) \<and>
   check_key typing_host = (True, typing_host\<lparr>ready := []\<rparr>) \<and>
   getchar (typing_host\<lparr>ready := []\<rparr>) = (uint (0x41 :: u8), typing_host\<lparr>ready := [], stdin := []\<rparr>) \<and>
   (\<exists>s1. mem_read MR_KBSR zero_vm typing_host = (0x8000, s1, typing_host\<lparr>ready := [], stdin := []\<rparr>) \<and>
            memory s1 MR_KBSR = 0x8000 \<and> bit (memory s1 MR_KBSR) 15 \<and>
            memory s1 MR_KBDR = ucast (0x41 :: u8) \<and>
            mem_read MR_KBDR s1 (typing_host\<lparr>ready := [], stdin := []\<rparr>)
              = (ucast (0x41 :: u8), s1, typing_host\<lparr>ready := [], stdin := []\<rparr>)) \<and>
   (0x3000 :: u16) \<noteq> MR_KBSR \<and>
   mem_read 0x3000 zero_vm quiet_host = (memory zero_vm 0x3000, zero_vm, quiet_host)"
proof -
  have a: "check_key quiet_host = (False, quiet_host)"
    by (simp add: check_key_def quiet_host_def)
  have b: "check_key typing_host = (True, typing_host\<lparr>ready := []\<rparr>)"
    by (simp add: check_key_def typing_host_def)
  have c: "getchar (typing_host\<lparr>ready := []\<rparr>)
      = (uint (0x41 :: u8), typing_host\<lparr>ready := [], stdin := []\<rparr>)"
    by (simp add: getchar_def typing_host_def)
  have d: "(0x3000 :: u16) \<noteq> MR_KBSR" by simp
  show ?thesis
    using a b c d
      mem_read_device [of quiet_host quiet_host zero_vm "0x41" quiet_host "0x3000"]
      mem_read_device [of typing_host "typing_host\<lparr>ready := []\<rparr>" zero_vm "0x41"
        "typing_host\<lparr>ready := [], stdin := []\<rparr>" "0x3000"]
    by simp
qed

section \<open>Reading memory and fetching\<close>

lemma reg_mem_read: "mem_read a s h = (v, s1, h1) \<Longrightarrow> reg s1 = reg s"
  by (auto simp: mem_read_def Let_def split: if_splits prod.splits)

lemma memory_mem_read:
  "mem_read a s h = (v, s1, h1) \<Longrightarrow> b \<noteq> MR_KBSR \<Longrightarrow> b \<noteq> MR_KBDR \<Longrightarrow> memory s1 b = memory s b"
  by (auto simp: mem_read_def Let_def split: if_splits prod.splits)

lemma mem_read_plain: "a \<noteq> MR_KBSR \<Longrightarrow> mem_read a s h = (memory s a, s, h)"
  by (simp add: mem_read_def)

lemma mem_read_status: "mem_read MR_KBSR s h = (v, s1, h1) \<Longrightarrow> v = 0 \<or> v = 0x8000"
  by (auto simp: mem_read_def Let_def split: if_splits prod.splits)

lemma reg_fetch: "fetch s h = (i, s1, h1) \<Longrightarrow> reg s1 = (reg s)(R_PC := reg s R_PC + 1)"
  by (auto simp: fetch_def Let_def dest: reg_mem_read)

lemma memory_fetch:
  "fetch s h = (i, s1, h1) \<Longrightarrow> b \<noteq> MR_KBSR \<Longrightarrow> b \<noteq> MR_KBDR \<Longrightarrow> memory s1 b = memory s b"
  by (auto simp: fetch_def Let_def dest: memory_mem_read)

lemma fetch_plain:
  assumes "fetch s h = (i, s1, h1)" and "drop_bit 12 i \<noteq> 0" and "drop_bit 12 i \<noteq> 8"
  shows "s1 = s\<lparr>reg := (reg s)(R_PC := reg s R_PC + 1)\<rparr> \<and> h1 = h \<and> i = memory s (reg s R_PC)"
proof (cases "reg s R_PC = MR_KBSR")
  case True
  with assms(1) have "mem_read MR_KBSR (s\<lparr>reg := (reg s)(R_PC := reg s R_PC + 1)\<rparr>) h = (i, s1, h1)"
    by (simp add: fetch_def Let_def)
  then have "i = 0 \<or> i = 0x8000" by (rule mem_read_status)
  with assms(2,3) show ?thesis by auto
next
  case False
  with assms(1) show ?thesis by (auto simp: fetch_def Let_def mem_read_plain)
qed

section \<open>Branches\<close>

text \<open>
  Claim C5. Let \<open>i\<close> be the fetched instruction, with opcode \<open>BR\<close>, and \<open>nzp\<close> its
  bits 11..9. The turn completes, \<open>COND\<close> is unchanged, and the program counter is
  \<open>PC + 1 + sext(PCoffset9)\<close> when \<open>nzp AND COND\<close> is not zero and \<open>PC + 1\<close> when it
  is zero. With \<open>nzp = 000\<close> it is \<open>PC + 1\<close>; with \<open>nzp = 111\<close> and \<open>COND\<close> one of
  the three flags the offset is added.
\<close>

theorem br_semantics:
  assumes "i = fetched s h" and "drop_bit 12 i = OP_BR"
  shows "\<exists>s' h'. step s h = Continue s' h' \<and>
     reg s' R_COND = reg s R_COND \<and>
     reg s' R_PC =
       (if (drop_bit 9 i AND 0x7) AND reg s R_COND \<noteq> 0
        then reg s R_PC + 1 + sign_extend (i AND 0x1FF) 9 else reg s R_PC + 1) \<and>
     (drop_bit 9 i AND 0x7 = 0 \<longrightarrow> reg s' R_PC = reg s R_PC + 1) \<and>
     (drop_bit 9 i AND 0x7 = 0x7 \<and> reg s R_COND \<in> {FL_NEG, FL_ZRO, FL_POS} \<longrightarrow>
        reg s' R_PC = reg s R_PC + 1 + sign_extend (i AND 0x1FF) 9)"
proof -
  obtain s1 h1 where f: "fetch s h = (i, s1, h1)"
    using assms(1) by (cases "fetch s h") (simp add: fetched_def)
  note r = reg_fetch [OF f]
  have st: "step s h = Continue (op_br i s1) h1"
    using f assms(2) by (simp add: step_def execute_def)
  have c: "reg (op_br i s1) R_COND = reg s R_COND"
    by (simp add: op_br_def Let_def r)
  have p: "reg (op_br i s1) R_PC =
       (if (drop_bit 9 i AND 0x7) AND reg s R_COND \<noteq> 0
        then reg s R_PC + 1 + sign_extend (i AND 0x1FF) 9 else reg s R_PC + 1)"
    by (simp add: op_br_def Let_def r)
  have z: "drop_bit 9 i AND 0x7 = 0 \<longrightarrow> reg (op_br i s1) R_PC = reg s R_PC + 1"
    using p by simp
  have u: "drop_bit 9 i AND 0x7 = 0x7 \<and> reg s R_COND \<in> {FL_NEG, FL_ZRO, FL_POS} \<longrightarrow>
        reg (op_br i s1) R_PC = reg s R_PC + 1 + sign_extend (i AND 0x1FF) 9"
    using p by auto
  from st c p z u show ?thesis by blast
qed


theorem br_semantics_witness:
  "0x0FFF = fetched (one_instr 0x0FFF) quiet_host \<and> drop_bit 12 (0x0FFF :: u16) = OP_BR \<and>
   drop_bit 9 (0x0FFF :: u16) AND 0x7 = 0x7 \<and>
   reg (one_instr 0x0FFF) R_COND \<in> {FL_NEG, FL_ZRO, FL_POS} \<and>
   (\<exists>s' h'. step (one_instr 0x0FFF) quiet_host = Continue s' h' \<and>
      reg s' R_COND = FL_ZRO \<and> reg s' R_PC = 0x3000) \<and>
   0x01FF = fetched (one_instr 0x01FF) quiet_host \<and> drop_bit 12 (0x01FF :: u16) = OP_BR \<and>
   drop_bit 9 (0x01FF :: u16) AND 0x7 = 0 \<and>
   (\<exists>s' h'. step (one_instr 0x01FF) quiet_host = Continue s' h' \<and>
      reg s' R_COND = FL_ZRO \<and> reg s' R_PC = 0x3001)"
proof -
  have a1: "0x0FFF = fetched (one_instr 0x0FFF) quiet_host" by code_simp
  have b1: "drop_bit 12 (0x0FFF :: u16) = OP_BR" by simp
  have c1: "drop_bit 9 (0x0FFF :: u16) AND 0x7 = 0x7" by simp
  have a2: "0x01FF = fetched (one_instr 0x01FF) quiet_host" by code_simp
  have b2: "drop_bit 12 (0x01FF :: u16) = OP_BR" by simp
  have c2: "drop_bit 9 (0x01FF :: u16) AND 0x7 = 0" by simp
  have r: "reg (one_instr i) R_COND = FL_ZRO" "reg (one_instr i) R_PC = 0x3000" for i
    by (simp_all add: one_instr_def boot_def)
  have e: "sign_extend (0x0FFF AND 0x1FF) 9 = 0xFFFF" by code_simp
  from br_semantics [OF a1 b1] c1 r e
  have "\<exists>s' h'. step (one_instr 0x0FFF) quiet_host = Continue s' h' \<and>
      reg s' R_COND = FL_ZRO \<and> reg s' R_PC = 0x3000"
    by auto
  moreover from br_semantics [OF a2 b2] c2 r
  have "\<exists>s' h'. step (one_instr 0x01FF) quiet_host = Continue s' h' \<and>
      reg s' R_COND = FL_ZRO \<and> reg s' R_PC = 0x3001"
    by auto
  ultimately show ?thesis using a1 b1 c1 a2 b2 c2 r by simp
qed

section \<open>Reserved opcodes\<close>

lemma opcode_less: "unat (drop_bit 12 (i::u16)) < 16"
proof -
  have "unat i < 2 ^ 16" using unsigned_less [of i] by simp
  then have "unat i div 2 ^ 12 < 16" by simp
  then show ?thesis by (simp add: drop_bit_eq_div unat_div)
qed

lemma opcode_cases:
  "drop_bit 12 (i::u16) \<in> {OP_BR, OP_ADD, OP_LD, OP_ST, OP_JSR, OP_AND, OP_LDR, OP_STR,
     OP_RTI, OP_NOT, OP_LDI, OP_STI, OP_JMP, OP_RES, OP_LEA, OP_TRAP}"
proof -
  define n where "n = unat (drop_bit 12 i)"
  have "n < 16" unfolding n_def by (rule opcode_less)
  then have "n = 0 \<or> n = 1 \<or> n = 2 \<or> n = 3 \<or> n = 4 \<or> n = 5 \<or> n = 6 \<or> n = 7 \<or> n = 8
     \<or> n = 9 \<or> n = 10 \<or> n = 11 \<or> n = 12 \<or> n = 13 \<or> n = 14 \<or> n = 15"
    by presburger
  moreover have "drop_bit 12 i = of_nat n" by (simp add: n_def)
  ultimately show ?thesis by auto
qed


lemma op_trap_not_Abort: "op_trap i s h \<noteq> Abort"
proof -
  obtain c h1 where g: "getchar h = (c, h1)" by (cases "getchar h")
  obtain c' h1' where g': "getchar (write_string ''Enter a character: '' h) = (c', h1')"
    by (cases "getchar (write_string ''Enter a character: '' h)")
  show ?thesis
    unfolding op_trap_def Let_def g g'
    by (cases "puts_loop (memory s) (unat (reg s R_R0)) h";
        cases "putsp_loop (memory s) (unat (reg s R_R0)) h"; simp)
qed

lemma execute_Abort_iff: "execute i s h = Abort \<longleftrightarrow> drop_bit 12 i \<in> {OP_RTI, OP_RES}"
proof -
  have "drop_bit 12 i = OP_BR \<or> drop_bit 12 i = OP_ADD \<or> drop_bit 12 i = OP_LD
      \<or> drop_bit 12 i = OP_ST \<or> drop_bit 12 i = OP_JSR \<or> drop_bit 12 i = OP_AND
      \<or> drop_bit 12 i = OP_LDR \<or> drop_bit 12 i = OP_STR \<or> drop_bit 12 i = OP_RTI
      \<or> drop_bit 12 i = OP_NOT \<or> drop_bit 12 i = OP_LDI \<or> drop_bit 12 i = OP_STI
      \<or> drop_bit 12 i = OP_JMP \<or> drop_bit 12 i = OP_RES \<or> drop_bit 12 i = OP_LEA
      \<or> drop_bit 12 i = OP_TRAP"
    using opcode_cases [of i] by blast
  then show ?thesis
    apply (elim disjE)
    apply (simp_all add: execute_def op_trap_not_Abort split: prod.splits)
    done
qed

text \<open>
  Claim C7. A turn of the loop calls \<open>abort()\<close> exactly when the top four bits of
  the fetched instruction are 1000 (RTI) or 1101 (reserved). Then the loop performs no
  further fetch, whatever fuel is left: the process is ended by \<open>SIGABRT\<close>, which
  is not the successful status.
\<close>

theorem reserved_opcodes_abort:
  "(step s h = Abort \<longleftrightarrow> drop_bit 12 (fetched s h) \<in> {OP_RTI, OP_RES}) \<and>
   (drop_bit 12 (fetched s h) \<in> {OP_RTI, OP_RES} \<longrightarrow>
      run (Suc n) s h = Some (Signaled SIGABRT) \<and> \<not> successful (Signaled SIGABRT))"
proof -
  obtain i s1 h1 where f: "fetch s h = (i, s1, h1)" by (cases "fetch s h")
  then have st: "step s h = execute i s1 h1" and i: "fetched s h = i"
    by (simp_all add: step_def fetched_def)
  have 1: "step s h = Abort \<longleftrightarrow> drop_bit 12 (fetched s h) \<in> {OP_RTI, OP_RES}"
    unfolding st i by (rule execute_Abort_iff)
  have 2: "run (Suc n) s h = Some (Signaled SIGABRT)" if "step s h = Abort"
    using that by simp
  have 3: "\<not> successful (Signaled SIGABRT)" by (simp add: successful_def)
  from 1 2 3 show ?thesis by blast
qed

theorem reserved_opcodes_abort_witness:
  "drop_bit 12 (fetched (one_instr 0x8000) quiet_host) \<in> {OP_RTI, OP_RES} \<and>
   step (one_instr 0x8000) quiet_host = Abort \<and>
   run (Suc 5) (one_instr 0x8000) quiet_host = Some (Signaled SIGABRT) \<and>
   \<not> successful (Signaled SIGABRT) \<and>
   drop_bit 12 (fetched (one_instr 0xD000) quiet_host) \<in> {OP_RTI, OP_RES} \<and>
   step (one_instr 0xD000) quiet_host = Abort"
proof -
  have a: "drop_bit 12 (fetched (one_instr 0x8000) quiet_host) \<in> {OP_RTI, OP_RES}"
    by code_simp
  have b: "drop_bit 12 (fetched (one_instr 0xD000) quiet_host) \<in> {OP_RTI, OP_RES}"
    by code_simp
  from a b reserved_opcodes_abort [of "one_instr 0x8000" quiet_host 5]
    reserved_opcodes_abort [of "one_instr 0xD000" quiet_host 5]
  show ?thesis by blast
qed

section \<open>Traps with an unknown code\<close>

text \<open>
  Claim C9. Let \<open>i\<close> be the fetched instruction, a TRAP whose low eight bits are none
  of \<open>0x20\<close> to \<open>0x25\<close>. The turn leaves the state as it was except that \<open>PC\<close> is
  incremented and \<open>R7\<close> holds the incremented \<open>PC\<close>: no other register, no memory
  word, not \<open>COND\<close> and not the terminal changes, and the loop goes on with the next
  fetch.
\<close>

theorem unknown_trap_only_sets_r7:
  assumes "i = fetched s h" and "drop_bit 12 i = OP_TRAP"
    and "i AND 0xFF \<notin> {TRAP_GETC, TRAP_OUT, TRAP_PUTS, TRAP_IN, TRAP_PUTSP, TRAP_HALT}"
  shows "step s h = Continue (s\<lparr>reg := (reg s)(R_PC := reg s R_PC + 1, R_R7 := reg s R_PC + 1)\<rparr>) h \<and>
     run (Suc n) s h = run n (s\<lparr>reg := (reg s)(R_PC := reg s R_PC + 1, R_R7 := reg s R_PC + 1)\<rparr>) h"
proof -
  obtain s1 h1 where f: "fetch s h = (i, s1, h1)"
    using assms(1) by (cases "fetch s h") (simp add: fetched_def)
  from fetch_plain [OF f] assms(2)
  have s1: "s1 = s\<lparr>reg := (reg s)(R_PC := reg s R_PC + 1)\<rparr>" and h1: "h1 = h" by simp_all
  have "execute i s1 h1 = Continue (s1\<lparr>reg := (reg s1)(R_R7 := reg s1 R_PC)\<rparr>) h1"
    using assms(2,3) by (simp add: execute_def op_trap_def Let_def)
  then have "step s h = Continue (s\<lparr>reg := (reg s)(R_PC := reg s R_PC + 1, R_R7 := reg s R_PC + 1)\<rparr>) h"
    using f by (simp add: step_def s1 h1)
  then show ?thesis by simp
qed

theorem unknown_trap_only_sets_r7_witness:
  "0xF0FF = fetched (one_instr 0xF0FF) quiet_host \<and> drop_bit 12 (0xF0FF :: u16) = OP_TRAP \<and>
   step (one_instr 0xF0FF) quiet_host
     = Continue ((one_instr 0xF0FF)\<lparr>reg := (reg (one_instr 0xF0FF))(R_PC := 0x3001, R_R7 := 0x3001)\<rparr>) quiet_host"
proof -
  have a: "0xF0FF = fetched (one_instr 0xF0FF) quiet_host" by code_simp
  have b: "drop_bit 12 (0xF0FF :: u16) = OP_TRAP" by simp
  have c: "(0xF0FF :: u16) AND 0xFF \<notin> {TRAP_GETC, TRAP_OUT, TRAP_PUTS, TRAP_IN, TRAP_PUTSP, TRAP_HALT}"
    by simp
  have r: "reg (one_instr 0xF0FF) R_PC = 0x3000" by (simp add: one_instr_def boot_def)
  from unknown_trap_only_sets_r7 [OF a b c, of 0] a b r show ?thesis by simp
qed

section \<open>JSRR with base register R7\<close>

text \<open>
  Claim C10. Let \<open>i\<close> be the fetched instruction, a register-form JSR (bit 11 clear)
  whose base register is \<open>R7\<close>. After the turn \<open>PC\<close> is the incremented program
  counter, as is \<open>R7\<close>, whatever \<open>R7\<close> held before, and the next fetch reads the word
  that follows the instruction.
\<close>

theorem jsrr_r7_continues_after_itself:
  assumes "i = fetched s h" and "drop_bit 12 i = OP_JSR"
    and "drop_bit 11 i AND 0x1 = 0" and "drop_bit 6 i AND 0x7 = 0x7"
  shows "\<exists>s'. step s h = Continue s' h \<and>
     reg s' R_PC = reg s R_PC + 1 \<and> reg s' R_R7 = reg s R_PC + 1 \<and>
     fetch s' h = mem_read (reg s R_PC + 1) (s'\<lparr>reg := (reg s')(R_PC := reg s R_PC + 1 + 1)\<rparr>) h"
proof -
  obtain s1 h1 where f: "fetch s h = (i, s1, h1)"
    using assms(1) by (cases "fetch s h") (simp add: fetched_def)
  from fetch_plain [OF f] assms(2)
  have s1: "s1 = s\<lparr>reg := (reg s)(R_PC := reg s R_PC + 1)\<rparr>" and h1: "h1 = h" by simp_all
  have st: "step s h = Continue (op_jsr i s1) h"
    using f assms(2) by (simp add: step_def execute_def h1)
  have pc: "reg (op_jsr i s1) R_PC = reg s R_PC + 1"
    using assms(3,4) by (simp add: op_jsr_def Let_def s1)
  have r7: "reg (op_jsr i s1) R_R7 = reg s R_PC + 1"
    using assms(3,4) by (simp add: op_jsr_def Let_def s1)
  have nx: "fetch (op_jsr i s1) h = mem_read (reg s R_PC + 1)
      ((op_jsr i s1)\<lparr>reg := (reg (op_jsr i s1))(R_PC := reg s R_PC + 1 + 1)\<rparr>) h"
    using pc by (simp add: fetch_def Let_def)
  from st pc r7 nx show ?thesis by blast
qed

theorem jsrr_r7_continues_after_itself_witness:
  "0x41C0 = fetched jsrr_vm quiet_host \<and> reg jsrr_vm R_R7 = 0x4000 \<and> reg jsrr_vm R_PC = 0x3000 \<and>
   (\<exists>s'. step jsrr_vm quiet_host = Continue s' quiet_host \<and>
     reg s' R_PC = 0x3001 \<and> reg s' R_R7 = 0x3001)"
proof -
  have a: "0x41C0 = fetched jsrr_vm quiet_host" by code_simp
  have b: "drop_bit 12 (0x41C0 :: u16) = OP_JSR" by simp
  have c: "drop_bit 11 (0x41C0 :: u16) AND 0x1 = 0" by simp
  have d: "drop_bit 6 (0x41C0 :: u16) AND 0x7 = 0x7" by simp
  have r: "reg jsrr_vm R_R7 = 0x4000" "reg jsrr_vm R_PC = 0x3000"
    by (simp_all add: jsrr_vm_def one_instr_def boot_def)
  from jsrr_r7_continues_after_itself [OF a b c d] a r show ?thesis by auto
qed

section \<open>The program counter after an instruction\<close>

lemma field3_ne:
  "unat ((x::u16) AND 0x7) \<noteq> 8" "unat ((x::u16) AND 0x7) \<noteq> 9"
  "8 \<noteq> unat ((x::u16) AND 0x7)" "9 \<noteq> unat ((x::u16) AND 0x7)"
  using field3_less [of x] by auto

lemma pc_update_flags: "r < 8 \<Longrightarrow> reg (update_flags r s) R_PC = reg s R_PC"
  by (simp add: reg_update_flags)

lemma pc_op_add: "reg (op_add i s) R_PC = reg s R_PC"
  by (simp add: op_add_def Let_def reg_update_flags field3_ne)

lemma pc_op_and: "reg (op_and i s) R_PC = reg s R_PC"
  by (simp add: op_and_def Let_def reg_update_flags field3_ne)

lemma pc_op_not: "reg (op_not i s) R_PC = reg s R_PC"
  by (simp add: op_not_def Let_def reg_update_flags field3_ne)

lemma pc_op_lea: "reg (op_lea i s) R_PC = reg s R_PC"
  by (simp add: op_lea_def Let_def reg_update_flags field3_ne)

lemma pc_op_st: "reg (op_st i s) R_PC = reg s R_PC"
  by (simp add: op_st_def Let_def mem_write_def)

lemma pc_op_str: "reg (op_str i s) R_PC = reg s R_PC"
  by (simp add: op_str_def Let_def mem_write_def)

lemma pc_op_ld: "op_ld i s h = (s', h') \<Longrightarrow> reg s' R_PC = reg s R_PC"
  by (auto simp: op_ld_def Let_def reg_update_flags field3_ne split: prod.splits dest: reg_mem_read)

lemma pc_op_ldr: "op_ldr i s h = (s', h') \<Longrightarrow> reg s' R_PC = reg s R_PC"
  by (auto simp: op_ldr_def Let_def reg_update_flags field3_ne split: prod.splits dest: reg_mem_read)

lemma pc_op_ldi: "op_ldi i s h = (s', h') \<Longrightarrow> reg s' R_PC = reg s R_PC"
  by (auto simp: op_ldi_def Let_def reg_update_flags field3_ne split: prod.splits dest!: reg_mem_read)

lemma pc_op_sti: "op_sti i s h = (s', h') \<Longrightarrow> reg s' R_PC = reg s R_PC"
  by (auto simp: op_sti_def Let_def mem_write_def split: prod.splits dest: reg_mem_read)



lemma op_trap_shape:
  "(\<exists>v h'. op_trap i s h = Continue (update_flags R_R0 (s\<lparr>reg := (reg s)(R_R7 := reg s R_PC, R_R0 := v)\<rparr>)) h')
   \<or> (\<exists>h'. op_trap i s h = Continue (s\<lparr>reg := (reg s)(R_R7 := reg s R_PC)\<rparr>) h')
   \<or> (\<exists>h'. op_trap i s h = Halt (s\<lparr>reg := (reg s)(R_R7 := reg s R_PC)\<rparr>) h')
   \<or> op_trap i s h = Undefined"
proof -
  obtain c h1 where g: "getchar h = (c, h1)" by (cases "getchar h")
  obtain c' h1' where g': "getchar (write_string ''Enter a character: '' h) = (c', h1')"
    by (cases "getchar (write_string ''Enter a character: '' h)")
  consider "i AND 0xFF = TRAP_GETC" | "i AND 0xFF = TRAP_OUT" | "i AND 0xFF = TRAP_PUTS"
    | "i AND 0xFF = TRAP_IN" | "i AND 0xFF = TRAP_PUTSP" | "i AND 0xFF = TRAP_HALT"
    | "i AND 0xFF \<notin> {TRAP_GETC, TRAP_OUT, TRAP_PUTS, TRAP_IN, TRAP_PUTSP, TRAP_HALT}"
    by blast
  then show ?thesis
  proof cases
    case 1
    then have "op_trap i s h = Continue (update_flags R_R0
        (s\<lparr>reg := (reg s)(R_R7 := reg s R_PC, R_R0 := word_of_int c)\<rparr>)) h1"
      unfolding op_trap_def Let_def g by simp
    then show ?thesis by blast
  next
    case 2
    then have "op_trap i s h = Continue (s\<lparr>reg := (reg s)(R_R7 := reg s R_PC)\<rparr>)
        (putc (ucast (reg s R_R0)) h)"
      unfolding op_trap_def Let_def by simp
    then show ?thesis by blast
  next
    case 3
    then have "op_trap i s h = Undefined
        \<or> (\<exists>h'. op_trap i s h = Continue (s\<lparr>reg := (reg s)(R_R7 := reg s R_PC)\<rparr>) h')"
      unfolding op_trap_def Let_def
      by (cases "puts_loop (memory s) (unat (reg s R_R0)) h") simp_all
    then show ?thesis by blast
  next
    case 4
    then have "op_trap i s h = Continue (update_flags R_R0
        (s\<lparr>reg := (reg s)(R_R7 := reg s R_PC, R_R0 := char_to_u16 h (word_of_int c'))\<rparr>))
        (putc (word_of_int c') h1')"
      unfolding op_trap_def Let_def g' by simp
    then show ?thesis by blast
  next
    case 5
    then have "op_trap i s h = Undefined
        \<or> (\<exists>h'. op_trap i s h = Continue (s\<lparr>reg := (reg s)(R_R7 := reg s R_PC)\<rparr>) h')"
      unfolding op_trap_def Let_def
      by (cases "putsp_loop (memory s) (unat (reg s R_R0)) h") simp_all
    then show ?thesis by blast
  next
    case 6
    then have "\<exists>h'. op_trap i s h = Halt (s\<lparr>reg := (reg s)(R_R7 := reg s R_PC)\<rparr>) h'"
      unfolding op_trap_def Let_def by simp
    then show ?thesis by blast
  next
    case 7
    then have "op_trap i s h = Continue (s\<lparr>reg := (reg s)(R_R7 := reg s R_PC)\<rparr>) h"
      unfolding op_trap_def Let_def by simp
    then show ?thesis by blast
  qed
qed

lemma pc_op_trap: "vm_of (op_trap i s h) = Some s' \<Longrightarrow> reg s' R_PC = reg s R_PC"
  using op_trap_shape [of i s h]
  by (elim disjE exE) (auto simp: vm_of_def reg_update_flags)

lemma memory_op_trap: "vm_of (op_trap i s h) = Some s' \<Longrightarrow> memory s' = memory s"
  using op_trap_shape [of i s h]
  by (elim disjE exE) (auto simp: vm_of_def update_flags_def)

lemma cond_op_trap_valid:
  "vm_of (op_trap i s h) = Some s' \<Longrightarrow> reg s R_COND \<in> {FL_NEG, FL_ZRO, FL_POS}
   \<Longrightarrow> reg s' R_COND \<in> {FL_NEG, FL_ZRO, FL_POS}"
  using op_trap_shape [of i s h]
  by (elim disjE exE) (auto simp: vm_of_def reg_update_flags split: if_splits)

lemma pc_execute:
  assumes "vm_of (execute i s1 h1) = Some s'"
  shows "reg s' R_PC =
     (if drop_bit 12 i = OP_BR then reg (op_br i s1) R_PC
      else if drop_bit 12 i = OP_JMP then reg (op_jmp i s1) R_PC
      else if drop_bit 12 i = OP_JSR then reg (op_jsr i s1) R_PC
      else reg s1 R_PC)"
proof -
  have "drop_bit 12 i = OP_BR \<or> drop_bit 12 i = OP_ADD \<or> drop_bit 12 i = OP_LD
      \<or> drop_bit 12 i = OP_ST \<or> drop_bit 12 i = OP_JSR \<or> drop_bit 12 i = OP_AND
      \<or> drop_bit 12 i = OP_LDR \<or> drop_bit 12 i = OP_STR \<or> drop_bit 12 i = OP_RTI
      \<or> drop_bit 12 i = OP_NOT \<or> drop_bit 12 i = OP_LDI \<or> drop_bit 12 i = OP_STI
      \<or> drop_bit 12 i = OP_JMP \<or> drop_bit 12 i = OP_RES \<or> drop_bit 12 i = OP_LEA
      \<or> drop_bit 12 i = OP_TRAP"
    using opcode_cases [of i] by blast
  then show ?thesis
    using assms
    apply (elim disjE)
    apply (auto simp: execute_def vm_of_def pc_op_add [simplified] pc_op_and [simplified]
        pc_op_not [simplified] pc_op_lea [simplified] pc_op_st [simplified]
        pc_op_str [simplified]
        dest: pc_op_ld [simplified] pc_op_ldr [simplified] pc_op_ldi [simplified]
          pc_op_sti [simplified] pc_op_trap [simplified] split: prod.splits)
    done
qed


lemma bit11_test: "(drop_bit 11 (i::u16) AND 0x1 = 0) = (\<not> bit i 11)"
  using sign_bit_test [of 11 i] by auto

lemma pc_op_br:
  "reg (op_br i s) R_PC =
     (if (drop_bit 9 i AND 0x7) AND reg s R_COND \<noteq> 0
      then reg s R_PC + sign_extend (i AND 0x1FF) 9 else reg s R_PC)"
  by (simp add: op_br_def Let_def)

lemma pc_op_jmp: "reg (op_jmp i s) R_PC = reg s (unat (drop_bit 6 i AND 0x7))"
  by (simp add: op_jmp_def Let_def)

lemma pc_op_jsr:
  "reg (op_jsr i s) R_PC =
     (if bit i 11 then reg s R_PC + sign_extend (i AND 0x7FF) 11
      else if unat (drop_bit 6 i AND 0x7) = R_R7 then reg s R_PC
      else reg s (unat (drop_bit 6 i AND 0x7)))"
  by (simp add: op_jsr_def Let_def bit11_test)

text \<open>What the instructions with a PC-relative operand compute, from the state after the fetch.\<close>

lemma lea_result:
  "reg (op_lea i s) (unat (drop_bit 9 i AND 0x7)) = reg s R_PC + sign_extend (i AND 0x1FF) 9"
  by (simp add: op_lea_def Let_def reg_update_flags field3_ne)

lemma ld_result:
  "op_ld i s h = (s', h') \<Longrightarrow>
   reg s' (unat (drop_bit 9 i AND 0x7))
     = fst (mem_read (reg s R_PC + sign_extend (i AND 0x1FF) 9) s h)"
  by (auto simp: op_ld_def Let_def reg_update_flags field3_ne split: prod.splits)

lemma ldi_result:
  "op_ldi i s h = (s', h') \<Longrightarrow>
   \<exists>a s2 h2. mem_read (reg s R_PC + sign_extend (i AND 0x1FF) 9) s h = (a, s2, h2) \<and>
     reg s' (unat (drop_bit 9 i AND 0x7)) = fst (mem_read a s2 h2)"
  by (auto simp: op_ldi_def Let_def reg_update_flags field3_ne split: prod.splits)

lemma st_result:
  "memory (op_st i s) (reg s R_PC + sign_extend (i AND 0x1FF) 9)
     = reg s (unat (drop_bit 9 i AND 0x7))"
  by (simp add: op_st_def Let_def mem_write_def)

lemma sti_result:
  "op_sti i s h = (s', h') \<Longrightarrow>
   memory s' (fst (mem_read (reg s R_PC + sign_extend (i AND 0x1FF) 9) s h))
     = reg s (unat (drop_bit 9 i AND 0x7))"
  by (auto simp: op_sti_def Let_def mem_write_def split: prod.splits dest: reg_mem_read)


text \<open>
  Claim C2. The fetch reads at the old \<open>PC\<close> (the word stored there, unless \<open>PC\<close> is
  the keyboard status register) with the program counter already incremented, so the
  instruction is decoded and run with \<open>PC_before + 1\<close> (modulo \<open>2^16\<close>) in \<open>PC\<close>.
  Every PC-relative offset is added to that value: LEA writes
  \<open>PC_before + 1 + sext(PCoffset9)\<close>, LD reads there and ST stores there, LDI and STI
  read their pointer there, and a taken BR and a PC-relative JSR add their offset to
  it. After every turn that leaves a state, \<open>PC\<close> is \<open>PC_before + 1 + \<Delta>\<close> with
  \<open>\<Delta> = spec_delta\<close>: 0 for the instructions that transfer no control, the
  sign-extended offset for a taken BR and a PC-relative JSR, and
  \<open>R[BaseR] - (PC_before + 1)\<close> for JMP and register-form JSR, where JSR reads the
  base register after \<open>R7\<close> has received the incremented program counter.
\<close>

theorem pc_after_instruction:
  assumes "fetch s h = (i, s1, h1)" and "vm_of (step s h) = Some s'"
  shows "fetch s h = mem_read (reg s R_PC) (s\<lparr>reg := (reg s)(R_PC := reg s R_PC + 1)\<rparr>) h \<and>
     reg s1 R_PC = reg s R_PC + 1 \<and>
     (reg s R_PC \<noteq> MR_KBSR \<longrightarrow> i = memory s (reg s R_PC)) \<and>
     reg s' R_PC = reg s R_PC + 1 + spec_delta i s \<and>
     (drop_bit 12 i = OP_LEA \<longrightarrow>
        reg s' (unat (drop_bit 9 i AND 0x7)) = reg s R_PC + 1 + sign_extend (i AND 0x1FF) 9) \<and>
     (drop_bit 12 i = OP_LD \<longrightarrow>
        reg s' (unat (drop_bit 9 i AND 0x7))
          = fst (mem_read (reg s R_PC + 1 + sign_extend (i AND 0x1FF) 9) s1 h1)) \<and>
     (drop_bit 12 i = OP_LDI \<longrightarrow>
        (\<exists>a s2 h2. mem_read (reg s R_PC + 1 + sign_extend (i AND 0x1FF) 9) s1 h1 = (a, s2, h2) \<and>
           reg s' (unat (drop_bit 9 i AND 0x7)) = fst (mem_read a s2 h2))) \<and>
     (drop_bit 12 i = OP_ST \<longrightarrow>
        memory s' (reg s R_PC + 1 + sign_extend (i AND 0x1FF) 9)
          = reg s (unat (drop_bit 9 i AND 0x7))) \<and>
     (drop_bit 12 i = OP_STI \<longrightarrow>
        memory s' (fst (mem_read (reg s R_PC + 1 + sign_extend (i AND 0x1FF) 9) s1 h1))
          = reg s (unat (drop_bit 9 i AND 0x7)))"
proof -
  note f = assms(1)
  note r = reg_fetch [OF f]
  have pc1: "reg s1 R_PC = reg s R_PC + 1" by (simp add: r)
  have sr: "reg s1 (unat (drop_bit 9 i AND 0x7)) = reg s (unat (drop_bit 9 i AND 0x7))"
    by (simp add: r field3_ne)
  have 0: "fetch s h = mem_read (reg s R_PC) (s\<lparr>reg := (reg s)(R_PC := reg s R_PC + 1)\<rparr>) h"
    by (simp add: fetch_def Let_def)
  have 2: "reg s R_PC \<noteq> MR_KBSR \<longrightarrow> i = memory s (reg s R_PC)"
    using f by (auto simp: fetch_def Let_def mem_read_plain)
  have e: "vm_of (execute i s1 h1) = Some s'"
    using assms(2) f by (simp add: step_def)
  have b: "unat (drop_bit 6 i AND 0x7) \<noteq> 8" by (rule field3_ne)
  have 3: "reg s' R_PC = reg s R_PC + 1 + spec_delta i s"
    unfolding pc_execute [OF e] pc_op_br pc_op_jmp pc_op_jsr
    using b by (simp add: r spec_delta_def Let_def)
  have lea: "reg s' (unat (drop_bit 9 i AND 0x7)) = reg s R_PC + 1 + sign_extend (i AND 0x1FF) 9"
    if op: "drop_bit 12 i = OP_LEA"
  proof -
    have "s' = op_lea i s1" using e op by (simp add: execute_def vm_of_def)
    then show ?thesis using lea_result [of i s1] pc1 by (simp add: add.assoc)
  qed
  have ld: "reg s' (unat (drop_bit 9 i AND 0x7))
      = fst (mem_read (reg s R_PC + 1 + sign_extend (i AND 0x1FF) 9) s1 h1)"
    if op: "drop_bit 12 i = OP_LD"
  proof -
    obtain h' where "op_ld i s1 h1 = (s', h')"
      using e op by (cases "op_ld i s1 h1") (simp add: execute_def vm_of_def)
    from ld_result [OF this] pc1 show ?thesis by simp
  qed
  have ldi: "\<exists>a s2 h2. mem_read (reg s R_PC + 1 + sign_extend (i AND 0x1FF) 9) s1 h1 = (a, s2, h2) \<and>
           reg s' (unat (drop_bit 9 i AND 0x7)) = fst (mem_read a s2 h2)"
    if op: "drop_bit 12 i = OP_LDI"
  proof -
    obtain h' where "op_ldi i s1 h1 = (s', h')"
      using e op by (cases "op_ldi i s1 h1") (simp add: execute_def vm_of_def)
    from ldi_result [OF this] pc1 show ?thesis by simp
  qed
  have st: "memory s' (reg s R_PC + 1 + sign_extend (i AND 0x1FF) 9)
      = reg s (unat (drop_bit 9 i AND 0x7))"
    if op: "drop_bit 12 i = OP_ST"
  proof -
    have "s' = op_st i s1" using e op by (simp add: execute_def vm_of_def)
    then show ?thesis using st_result [of i s1] pc1 sr by simp
  qed
  have sti: "memory s' (fst (mem_read (reg s R_PC + 1 + sign_extend (i AND 0x1FF) 9) s1 h1))
      = reg s (unat (drop_bit 9 i AND 0x7))"
    if op: "drop_bit 12 i = OP_STI"
  proof -
    obtain h' where "op_sti i s1 h1 = (s', h')"
      using e op by (cases "op_sti i s1 h1") (simp add: execute_def vm_of_def)
    from sti_result [OF this] pc1 sr show ?thesis by simp
  qed
  from 0 pc1 2 3 lea ld ldi st sti show ?thesis by blast
qed


text \<open>
  \<open>LEA R0, #2\<close> (\<open>0xE002\<close>) and \<open>JSRR R7\<close> at \<open>0x3000\<close>, and \<open>ST R1, #1\<close>
  (\<open>0x3201\<close>) at \<open>0x3000\<close> with \<open>R1 = 0xBEEF\<close>.
\<close>

theorem pc_after_instruction_witness:
  "fetched (one_instr 0xE002) quiet_host = 0xE002 \<and>
   (\<exists>s'. vm_of (step (one_instr 0xE002) quiet_host) = Some s' \<and>
      reg s' R_PC = 0x3001 \<and> reg s' 0 = 0x3003) \<and>
   fetched jsrr_vm quiet_host = 0x41C0 \<and>
   (\<exists>s'. vm_of (step jsrr_vm quiet_host) = Some s' \<and> reg s' R_PC = 0x3001) \<and>
   fetched store_vm quiet_host = 0x3201 \<and>
   (\<exists>s'. vm_of (step store_vm quiet_host) = Some s' \<and>
      reg s' R_PC = 0x3001 \<and> memory s' 0x3002 = 0xBEEF)"
proof -
  let ?lea = "one_instr 0xE002"
  have i1: "fetched ?lea quiet_host = 0xE002" by code_simp
  have i2: "fetched jsrr_vm quiet_host = 0x41C0" by code_simp
  have i3: "fetched store_vm quiet_host = 0x3201" by code_simp
  have f1: "fetch ?lea quiet_host
      = (0xE002, fst (snd (fetch ?lea quiet_host)), snd (snd (fetch ?lea quiet_host)))"
    using i1 by (simp add: fetched_def prod_eq_iff)
  have f2: "fetch jsrr_vm quiet_host
      = (0x41C0, fst (snd (fetch jsrr_vm quiet_host)), snd (snd (fetch jsrr_vm quiet_host)))"
    using i2 by (simp add: fetched_def prod_eq_iff)
  have f3: "fetch store_vm quiet_host
      = (0x3201, fst (snd (fetch store_vm quiet_host)), snd (snd (fetch store_vm quiet_host)))"
    using i3 by (simp add: fetched_def prod_eq_iff)
  have "pc_after (step ?lea quiet_host) = Some 0x3001" by code_simp
  then obtain t1 where v1: "vm_of (step ?lea quiet_host) = Some t1"
    by (auto simp: pc_after_def)
  have "pc_after (step jsrr_vm quiet_host) = Some 0x3001" by code_simp
  then obtain t2 where v2: "vm_of (step jsrr_vm quiet_host) = Some t2"
    by (auto simp: pc_after_def)
  have "pc_after (step store_vm quiet_host) = Some 0x3001" by code_simp
  then obtain t3 where v3: "vm_of (step store_vm quiet_host) = Some t3"
    by (auto simp: pc_after_def)
  have k1: "reg ?lea R_PC + 1 + spec_delta 0xE002 ?lea = 0x3001"
    "reg ?lea R_PC + 1 + sign_extend (0xE002 AND 0x1FF) 9 = 0x3003"
    "drop_bit 12 (0xE002 :: u16) = OP_LEA" "unat (drop_bit 9 (0xE002 :: u16) AND 0x7) = 0"
    by code_simp+
  have k2: "reg jsrr_vm R_PC + 1 + spec_delta 0x41C0 jsrr_vm = 0x3001" by code_simp
  have k3: "reg store_vm R_PC + 1 + spec_delta 0x3201 store_vm = 0x3001"
    "reg store_vm R_PC + 1 + sign_extend (0x3201 AND 0x1FF) 9 = 0x3002"
    "drop_bit 12 (0x3201 :: u16) = OP_ST"
    "reg store_vm (unat (drop_bit 9 (0x3201 :: u16) AND 0x7)) = 0xBEEF"
    by code_simp+
  note T1 = pc_after_instruction [OF f1 v1]
  note T2 = pc_after_instruction [OF f2 v2]
  note T3 = pc_after_instruction [OF f3 v3]
  have a1: "reg t1 R_PC = 0x3001" using T1 k1(1) by metis
  have b1: "reg t1 0 = 0x3003" using T1 k1(2,3,4) by metis
  have a2: "reg t2 R_PC = 0x3001" using T2 k2 by metis
  have a3: "reg t3 R_PC = 0x3001" using T3 k3(1) by metis
  have b3: "memory t3 0x3002 = 0xBEEF" using T3 k3(2,3,4) by metis
  from i1 i2 i3 v1 v2 v3 a1 b1 a2 a3 b3 show ?thesis by blast
qed

text \<open>
  For a register-form JSR, \<open>\<Delta>\<close> in terms of the registers before the instruction:
  the base register's content unless the base register is \<open>R7\<close> itself, which by
  then holds the incremented program counter.
\<close>

lemma spec_delta_register_jsr:
  assumes "drop_bit 12 i = OP_JSR" and "\<not> bit i 11"
  shows "spec_delta i s =
     (if unat (drop_bit 6 i AND 0x7) = R_R7 then 0
      else reg s (unat (drop_bit 6 i AND 0x7)) - (reg s R_PC + 1))"
  using assms by (simp add: spec_delta_def Let_def)

section \<open>Memory that an instruction leaves alone\<close>

lemma memory_update_flags: "memory (update_flags r s) = memory s"
  by (simp add: update_flags_def)

lemma memory_op_add: "memory (op_add i s) = memory s"
  by (simp add: op_add_def Let_def memory_update_flags)

lemma memory_op_and: "memory (op_and i s) = memory s"
  by (simp add: op_and_def Let_def memory_update_flags)

lemma memory_op_not: "memory (op_not i s) = memory s"
  by (simp add: op_not_def Let_def memory_update_flags)

lemma memory_op_lea: "memory (op_lea i s) = memory s"
  by (simp add: op_lea_def Let_def memory_update_flags)

lemma memory_op_br: "memory (op_br i s) = memory s"
  by (simp add: op_br_def Let_def)

lemma memory_op_jmp: "memory (op_jmp i s) = memory s"
  by (simp add: op_jmp_def Let_def)

lemma memory_op_jsr: "memory (op_jsr i s) = memory s"
  by (simp add: op_jsr_def Let_def)

lemma memory_op_ld:
  "op_ld i s h = (s', h') \<Longrightarrow> a \<noteq> MR_KBSR \<Longrightarrow> a \<noteq> MR_KBDR \<Longrightarrow> memory s' a = memory s a"
  by (auto simp: op_ld_def Let_def memory_update_flags split: prod.splits
      dest: memory_mem_read [simplified])

lemma memory_op_ldr:
  "op_ldr i s h = (s', h') \<Longrightarrow> a \<noteq> MR_KBSR \<Longrightarrow> a \<noteq> MR_KBDR \<Longrightarrow> memory s' a = memory s a"
  by (auto simp: op_ldr_def Let_def memory_update_flags split: prod.splits
      dest: memory_mem_read [simplified])

lemma memory_op_ldi:
  assumes "op_ldi i s h = (s', h')" and "a \<noteq> MR_KBSR" and "a \<noteq> MR_KBDR"
  shows "memory s' a = memory s a"
proof -
  obtain p s1 h1 where 1: "mem_read (reg s R_PC + sign_extend (i AND 0x1FF) 9) s h = (p, s1, h1)"
    by (cases "mem_read (reg s R_PC + sign_extend (i AND 0x1FF) 9) s h")
  obtain v s2 h2 where 2: "mem_read p s1 h1 = (v, s2, h2)"
    by (cases "mem_read p s1 h1")
  from assms(1) have "memory s' = memory s2"
    by (auto simp: op_ldi_def Let_def 1 [simplified] 2 memory_update_flags)
  with memory_mem_read [OF 1 assms(2,3)] memory_mem_read [OF 2 assms(2,3)]
  show ?thesis by simp
qed

lemma memory_op_st:
  "a \<noteq> reg s R_PC + sign_extend (i AND 0x1FF) 9 \<Longrightarrow> memory (op_st i s) a = memory s a"
  by (simp add: op_st_def Let_def mem_write_def)

lemma memory_op_str:
  "a \<noteq> reg s (unat (drop_bit 6 i AND 0x7)) + sign_extend (i AND 0x3F) 6
   \<Longrightarrow> memory (op_str i s) a = memory s a"
  by (simp add: op_str_def Let_def mem_write_def)

lemma memory_op_sti:
  assumes "op_sti i s h = (s', h')" and "a \<noteq> MR_KBSR" and "a \<noteq> MR_KBDR"
    and "a \<noteq> fst (mem_read (reg s R_PC + sign_extend (i AND 0x1FF) 9) s h)"
  shows "memory s' a = memory s a"
proof -
  obtain p s1 h1 where 1: "mem_read (reg s R_PC + sign_extend (i AND 0x1FF) 9) s h = (p, s1, h1)"
    by (cases "mem_read (reg s R_PC + sign_extend (i AND 0x1FF) 9) s h")
  from assms(1) have "s' = mem_write p (reg s1 (unat (drop_bit 9 i AND 0x7))) s1"
    by (auto simp: op_sti_def Let_def 1 [simplified])
  moreover have "a \<noteq> p" using assms(4) 1 by simp
  ultimately have "memory s' a = memory s1 a" by (simp add: mem_write_def)
  with memory_mem_read [OF 1 assms(2,3)] show ?thesis by simp
qed


lemma memory_execute:
  assumes "vm_of (execute i s1 h1) = Some s'" and "a \<noteq> MR_KBSR" and "a \<noteq> MR_KBDR"
    and "store_address i s1 h1 \<noteq> Some a"
  shows "memory s' a = memory s1 a"
proof -
  have "drop_bit 12 i = OP_BR \<or> drop_bit 12 i = OP_ADD \<or> drop_bit 12 i = OP_LD
      \<or> drop_bit 12 i = OP_ST \<or> drop_bit 12 i = OP_JSR \<or> drop_bit 12 i = OP_AND
      \<or> drop_bit 12 i = OP_LDR \<or> drop_bit 12 i = OP_STR \<or> drop_bit 12 i = OP_RTI
      \<or> drop_bit 12 i = OP_NOT \<or> drop_bit 12 i = OP_LDI \<or> drop_bit 12 i = OP_STI
      \<or> drop_bit 12 i = OP_JMP \<or> drop_bit 12 i = OP_RES \<or> drop_bit 12 i = OP_LEA
      \<or> drop_bit 12 i = OP_TRAP"
    using opcode_cases [of i] by blast
  then show ?thesis
    using assms
    apply (elim disjE)
    apply (auto simp: execute_def vm_of_def store_address_def Let_def
        memory_op_add memory_op_and memory_op_not memory_op_lea memory_op_br
        memory_op_jmp memory_op_jsr memory_op_st [simplified] memory_op_str [simplified]
        memory_op_trap
        dest: memory_op_ld [simplified] memory_op_ldr [simplified] memory_op_ldi [simplified]
          memory_op_sti [simplified] split: prod.splits)
    done
qed

text \<open>
  Claim C8. Let \<open>i\<close> be the fetched instruction and \<open>a\<close> an address other than
  \<open>0xFE00\<close> and \<open>0xFE02\<close>. After a turn that leaves a state, the word at \<open>a\<close> is
  the word that was there before, unless \<open>i\<close> is ST, STI or STR and \<open>a\<close> is the
  address it stores to (\<open>store_address\<close>); so an instruction that is none of the
  three stores changes no such word.
\<close>

theorem memory_frame:
  assumes "fetch s h = (i, s1, h1)" and "vm_of (step s h) = Some s'"
    and "a \<noteq> MR_KBSR" and "a \<noteq> MR_KBDR"
  shows "(store_address i s1 h1 \<noteq> Some a \<longrightarrow> memory s' a = memory s a) \<and>
     (drop_bit 12 i \<notin> {OP_ST, OP_STI, OP_STR} \<longrightarrow> memory s' a = memory s a)"
proof -
  have e: "vm_of (execute i s1 h1) = Some s'"
    using assms(1,2) by (simp add: step_def)
  have 1: "memory s' a = memory s a" if "store_address i s1 h1 \<noteq> Some a"
    using memory_execute [OF e assms(3,4) that] memory_fetch [OF assms(1,3,4)] by simp
  have 2: "store_address i s1 h1 \<noteq> Some a" if "drop_bit 12 i \<notin> {OP_ST, OP_STI, OP_STR}"
    using that by (simp add: store_address_def Let_def)
  from 1 2 show ?thesis by blast
qed


theorem memory_frame_witness:
  "fetched (one_instr 0x3001) quiet_host = 0x3001 \<and>
   store_address 0x3001 (fst (snd (fetch (one_instr 0x3001) quiet_host)))
     (snd (snd (fetch (one_instr 0x3001) quiet_host))) = Some 0x3002 \<and>
   (\<exists>s'. vm_of (step (one_instr 0x3001) quiet_host) = Some s' \<and>
      memory s' 0x3005 = memory (one_instr 0x3001) 0x3005) \<and>
   fetched (one_instr 0x14BF) quiet_host = 0x14BF \<and>
   (\<exists>s'. vm_of (step (one_instr 0x14BF) quiet_host) = Some s' \<and>
      memory s' 0x3002 = memory (one_instr 0x14BF) 0x3002)"
proof -
  let ?st = "one_instr 0x3001" and ?add = "one_instr 0x14BF"
  have i1: "fetched ?st quiet_host = 0x3001" by code_simp
  have i2: "fetched ?add quiet_host = 0x14BF" by code_simp
  have f1: "fetch ?st quiet_host
      = (0x3001, fst (snd (fetch ?st quiet_host)), snd (snd (fetch ?st quiet_host)))"
    using i1 by (simp add: fetched_def prod_eq_iff)
  have f2: "fetch ?add quiet_host
      = (0x14BF, fst (snd (fetch ?add quiet_host)), snd (snd (fetch ?add quiet_host)))"
    using i2 by (simp add: fetched_def prod_eq_iff)
  have "pc_after (step ?st quiet_host) = Some 0x3001" by code_simp
  then obtain s1' where v1: "vm_of (step ?st quiet_host) = Some s1'"
    by (auto simp: pc_after_def)
  have "pc_after (step ?add quiet_host) = Some 0x3001" by code_simp
  then obtain s2' where v2: "vm_of (step ?add quiet_host) = Some s2'"
    by (auto simp: pc_after_def)
  have t: "store_address 0x3001 (fst (snd (fetch ?st quiet_host)))
      (snd (snd (fetch ?st quiet_host))) = Some 0x3002"
    by code_simp
  have d: "(0x3005 :: u16) \<noteq> MR_KBSR" "(0x3005 :: u16) \<noteq> MR_KBDR"
    "(0x3002 :: u16) \<noteq> MR_KBSR" "(0x3002 :: u16) \<noteq> MR_KBDR"
    by simp_all
  have o: "drop_bit 12 (0x14BF :: u16) \<notin> {OP_ST, OP_STI, OP_STR}" by simp
  from memory_frame [OF f1 v1 d(1,2)] t
  have m1: "memory s1' 0x3005 = memory ?st 0x3005" by simp
  from memory_frame [OF f2 v2 d(3,4)] o
  have m2: "memory s2' 0x3002 = memory ?add 0x3002" by blast
  from i1 i2 t v1 v2 m1 m2 show ?thesis by blast
qed

section \<open>The image loader\<close>

lemma swap16_le_word: "swap16 (le_word b0 b1) = be_word b0 b1"
  apply (rule bit_word_eqI)
  apply (auto simp: swap16_def le_word_def be_word_def bit_simps dest: bit_imp_le_length)
  done

lemma length_fread_words: "length (fread_words n bs) = min n (length bs div 2)"
  by (induction n bs rule: fread_words.induct) auto

lemma nth_fread_words:
  "k < length (fread_words n bs) \<Longrightarrow>
   fread_words n bs ! k = le_word (bs ! (2 * k)) (bs ! (2 * k + 1))"
proof (induction n bs arbitrary: k rule: fread_words.induct)
  case (1 n b0 b1 bs)
  then show ?case by (cases k) auto
qed auto

lemma of_nat_inj_u16:
  "i < 2 ^ 16 \<Longrightarrow> j < 2 ^ 16 \<Longrightarrow> (of_nat i :: u16) = of_nat j \<Longrightarrow> i = j"
proof -
  assume i: "i < 2 ^ 16" and j: "j < 2 ^ 16" and e: "(of_nat i :: u16) = of_nat j"
  from e have "unat (of_nat i :: u16) = unat (of_nat j :: u16)" by simp
  then have "i mod 2 ^ 16 = j mod 2 ^ 16" by (simp add: unat_of_nat)
  with i j show "i = j" by simp
qed

lemma store_words_other:
  "(\<forall>k<length ws. a \<noteq> of_nat (p + k)) \<Longrightarrow> store_words p ws m a = m a"
proof (induction ws arbitrary: p m)
  case Nil
  then show ?case by simp
next
  case (Cons w ws)
  have "a \<noteq> of_nat p" using Cons.prems by force
  moreover have "\<forall>k<length ws. a \<noteq> of_nat (p + 1 + k)" using Cons.prems by force
  ultimately show ?case using Cons.IH [of "p + 1"] by simp
qed

lemma store_words_nth:
  "p + length ws \<le> 2 ^ 16 \<Longrightarrow> k < length ws \<Longrightarrow>
   store_words p ws m (of_nat (p + k)) = ws ! k"
proof (induction ws arbitrary: p m k)
  case Nil
  then show ?case by simp
next
  case (Cons w ws)
  show ?case
  proof (cases k)
    case 0
    have "\<forall>j<length ws. (of_nat p :: u16) \<noteq> of_nat (p + 1 + j)"
    proof (intro allI impI)
      fix j assume "j < length ws"
      then have "p < 2 ^ 16" "p + 1 + j < 2 ^ 16" using Cons.prems(1) by auto
      then show "(of_nat p :: u16) \<noteq> of_nat (p + 1 + j)"
        using of_nat_inj_u16 [of p "p + 1 + j"] by auto
    qed
    then show ?thesis using 0 store_words_other [of ws "of_nat p" "p + 1"] by simp
  next
    case (Suc j)
    then show ?thesis using Cons.prems Cons.IH [of "p + 1" j] by simp
  qed
qed

lemma swap_loop_other:
  "(\<forall>k<len. a \<noteq> of_nat (p + k)) \<Longrightarrow> swap_loop len p m a = m a"
proof (induction len arbitrary: p m)
  case 0
  then show ?case by simp
next
  case (Suc len)
  have "a \<noteq> of_nat p" using Suc.prems by force
  moreover have "\<forall>k<len. a \<noteq> of_nat (p + 1 + k)" using Suc.prems by force
  ultimately show ?case using Suc.IH [of "p + 1"] by simp
qed

lemma swap_loop_nth:
  "p + len \<le> 2 ^ 16 \<Longrightarrow> k < len \<Longrightarrow>
   swap_loop len p m (of_nat (p + k)) = swap16 (m (of_nat (p + k)))"
proof (induction len arbitrary: p m k)
  case 0
  then show ?case by simp
next
  case (Suc len)
  show ?case
  proof (cases k)
    case 0
    have "\<forall>j<len. (of_nat p :: u16) \<noteq> of_nat (p + 1 + j)"
    proof (intro allI impI)
      fix j assume "j < len"
      then have "p < 2 ^ 16" "p + 1 + j < 2 ^ 16" using Suc.prems(1) by auto
      then show "(of_nat p :: u16) \<noteq> of_nat (p + 1 + j)"
        using of_nat_inj_u16 [of p "p + 1 + j"] by auto
    qed
    then show ?thesis using 0 swap_loop_other [of len "of_nat p" "p + 1"] by simp
  next
    case (Suc j)
    have ne: "(of_nat (p + 1 + j) :: u16) \<noteq> of_nat p"
    proof -
      have "p < 2 ^ 16" "p + 1 + j < 2 ^ 16" using Suc.prems Suc by auto
      then show ?thesis using of_nat_inj_u16 [of "p + 1 + j" p] by auto
    qed
    show ?thesis using Suc Suc.prems Suc.IH [of "p + 1" j] ne by simp
  qed
qed


lemma max_read_nonzero:
  assumes "origin \<noteq> (0 :: u16)"
  shows "unat (word_of_int (int MEMORY_MAX - uint origin) :: u16) = MEMORY_MAX - unat origin"
proof -
  define p where "p = unat origin"
  have p0: "p \<noteq> 0" unfolding p_def using assms by (simp add: unat_eq_0)
  have plt: "p < 65536" unfolding p_def using unsigned_less [of origin] by simp
  have u: "uint origin = int p" unfolding p_def by (rule uint_nat)
  have i: "int (2 ^ 16) - int p = int (65536 - p)" using plt by (simp add: of_nat_diff)
  have "unat (word_of_int (int (65536 - p)) :: u16) = (65536 - p) mod 65536"
    by (simp add: unat_of_nat)
  also have "\<dots> = 65536 - p" using p0 by simp
  finally have "unat (word_of_int (int (2 ^ 16) - uint origin) :: u16) = 65536 - p"
    by (simp only: u i)
  then show ?thesis unfolding p_def MEMORY_MAX_def by simp
qed

text \<open>
  For an origin other than 0 the loader does what the image format asks: with \<open>n\<close>
  the number of complete words that fit (the payload's, or what is left of the address
  space), word \<open>k < n\<close> of the payload is at \<open>origin + k\<close>, high byte first. Memory
  elsewhere is unchanged, except that a last odd byte, when there is room for one more
  word, leaves the word at \<open>origin + n\<close> with the value \<open>partial\<close>.
\<close>

lemma read_image_file_loads:
  assumes o: "origin = be_word b0 b1" and nz: "origin \<noteq> 0"
    and n: "n = min (length rest div 2) (MEMORY_MAX - unat origin)"
  shows "\<exists>s'. read_image_file partial (b0 # b1 # rest) s = Some s' \<and> reg s' = reg s \<and>
      (\<forall>k<n. memory s' (origin + of_nat k) = be_word (rest ! (2 * k)) (rest ! (2 * k + 1))) \<and>
      (\<forall>a. (\<forall>k<n. a \<noteq> origin + of_nat k) \<and>
           (length rest = 2 * n + 1 \<and> n < MEMORY_MAX - unat origin \<longrightarrow> a \<noteq> origin + of_nat n)
           \<longrightarrow> memory s' a = memory s a) \<and>
      (length rest = 2 * n + 1 \<and> n < MEMORY_MAX - unat origin
         \<longrightarrow> memory s' (origin + of_nat n) = partial)"
proof -
  define p where "p = unat origin"
  define M where "M = MEMORY_MAX - p"
  define ws where "ws = fread_words M rest"
  define m1 where "m1 = store_words p ws (memory s)"
  define m2 where "m2 = (if length ws < M \<and> length rest = 2 * length ws + 1
                    then m1(of_nat (p + length ws) := partial) else m1)"
  define m3 where "m3 = swap_loop (length ws) p m2"
  have plt: "p < 2 ^ 16" unfolding p_def using unsigned_less [of origin] by simp
  have len: "length ws = n" unfolding ws_def M_def p_def n by (simp add: length_fread_words min.commute)
  have fit: "p + n \<le> 2 ^ 16" unfolding n p_def using plt by (simp add: p_def)
  have po: "(of_nat p :: u16) = origin" by (simp add: p_def)
  have addr: "(of_nat (p + k) :: u16) = origin + of_nat k" for k by (simp add: p_def)
  have res: "read_image_file partial (b0 # b1 # rest) s = Some (s\<lparr>memory := m3\<rparr>)"
    using max_read_nonzero [OF nz] o
    by (simp add: read_image_file_def Let_def swap16_le_word m3_def m2_def m1_def ws_def M_def p_def)
  have ne: "(of_nat (p + k) :: u16) \<noteq> of_nat (p + n)" if "k < n" "p + n < 2 ^ 16" for k
    using that of_nat_inj_u16 [of "p + k" "p + n"] by auto
  have loaded: "m3 (origin + of_nat k) = be_word (rest ! (2 * k)) (rest ! (2 * k + 1))" if "k < n" for k
  proof -
    have "m3 (of_nat (p + k)) = swap16 (m2 (of_nat (p + k)))"
      unfolding m3_def using swap_loop_nth [of p "length ws" k m2] fit that by (simp add: len)
    also have "m2 (of_nat (p + k)) = m1 (of_nat (p + k))"
    proof (cases "length ws < M \<and> length rest = 2 * length ws + 1")
      case True
      then have "p + n < 2 ^ 16" using plt by (auto simp: len M_def)
      from ne [OF that this]
      have d: "(of_nat (p + k) :: u16) \<noteq> of_nat (p + length ws)" unfolding len .
      have "m2 = m1(of_nat (p + length ws) := partial)"
        by (simp only: m2_def if_P [OF True])
      then show ?thesis by (simp only: fun_upd_other [OF d])
    next
      case False
      show ?thesis by (simp only: m2_def if_not_P [OF False])
    qed
    also have "m1 (of_nat (p + k)) = ws ! k"
      unfolding m1_def using store_words_nth [of p ws k "memory s"] fit that by (simp add: len)
    also have "ws ! k = le_word (rest ! (2 * k)) (rest ! (2 * k + 1))"
      unfolding ws_def using that len by (simp add: nth_fread_words ws_def)
    finally show ?thesis by (simp add: swap16_le_word po)
  qed
  have frame: "m3 a = memory s a"
    if 1: "\<forall>k<n. a \<noteq> origin + of_nat k"
      and 2: "length rest = 2 * n + 1 \<and> n < MEMORY_MAX - unat origin \<longrightarrow> a \<noteq> origin + of_nat n" for a
  proof -
    have o1: "\<forall>k<length ws. a \<noteq> of_nat (p + k)" using 1 by (simp add: len po)
    have "m3 a = m2 a" unfolding m3_def using o1 by (rule swap_loop_other)
    also have "m2 a = m1 a" unfolding m2_def using 2 by (auto simp: len M_def po) (simp add: p_def)
    also have "m1 a = memory s a" unfolding m1_def using o1 by (rule store_words_other)
    finally show ?thesis .
  qed
  have stray: "m3 (origin + of_nat n) = partial"
    if "length rest = 2 * n + 1 \<and> n < MEMORY_MAX - unat origin"
  proof -
    have lt: "p + n < 2 ^ 16" using that by (auto simp: p_def)
    have "\<forall>k<length ws. (of_nat (p + n) :: u16) \<noteq> of_nat (p + k)"
    proof (intro allI impI)
      fix k
      assume "k < length ws"
      then have "k < n" by (simp add: len)
      from ne [OF this lt] show "(of_nat (p + n) :: u16) \<noteq> of_nat (p + k)"
        by (rule not_sym)
    qed
    then have "m3 (of_nat (p + n)) = m2 (of_nat (p + n))"
      unfolding m3_def by (rule swap_loop_other)
    also have "\<dots> = partial" unfolding m2_def using that by (simp add: len M_def p_def)
    finally show ?thesis by (simp add: po)
  qed
  from res loaded frame stray show ?thesis by simp
qed

text \<open>
  Claim C3. For an origin other than 0 the loader behaves as
  \<open>read_image_file_loads\<close> states. For the origin 0 it loads nothing:
  \<open>MEMORY_MAX - origin\<close> is then \<open>65536\<close>, which
  the \<open>uint16_t max_read\<close> holds as 0, so \<open>fread\<close> is asked for no element and the
  loader leaves the whole memory as it was, whatever follows the origin in the file.
  The file \<open>00 00 12 34\<close> leaves \<open>memory[0]\<close> at its old value (0 in the fresh
  machine) and not at \<open>0x1234\<close>.
\<close>

theorem read_image_file_origin_zero:
  "read_image_file partial (0 # 0 # rest) s = Some s \<and>
   map_option (\<lambda>t. memory t 0) (read_image_file partial [0x00, 0x00, 0x12, 0x34] zero_vm)
     = Some 0"
  by (simp add: read_image_file_def le_word_def swap16_def zero_vm_def)

section \<open>The condition register holds one flag at all times\<close>

text \<open>
  \<open>main\<close> starts the loop with \<open>COND = FL_ZRO\<close>, and every turn of the loop that
  leaves a state keeps \<open>COND\<close> one of the three flags: it is written by
  \<open>update_flags\<close> only.
\<close>

lemma cond_valid_update_flags: "cond_valid (update_flags r s)"
  by (simp add: cond_valid_def reg_update_flags)

lemma cond_valid_op_add: "cond_valid (op_add i s)"
  by (simp add: op_add_def Let_def cond_valid_update_flags)

lemma cond_valid_op_and: "cond_valid (op_and i s)"
  by (simp add: op_and_def Let_def cond_valid_update_flags)

lemma cond_valid_op_not: "cond_valid (op_not i s)"
  by (simp add: op_not_def Let_def cond_valid_update_flags)

lemma cond_valid_op_lea: "cond_valid (op_lea i s)"
  by (simp add: op_lea_def Let_def cond_valid_update_flags)

lemma cond_valid_op_ld: "op_ld i s h = (s', h') \<Longrightarrow> cond_valid s'"
  by (auto simp: op_ld_def Let_def cond_valid_update_flags split: prod.splits)

lemma cond_valid_op_ldr: "op_ldr i s h = (s', h') \<Longrightarrow> cond_valid s'"
  by (auto simp: op_ldr_def Let_def cond_valid_update_flags split: prod.splits)

lemma cond_valid_op_ldi: "op_ldi i s h = (s', h') \<Longrightarrow> cond_valid s'"
  by (auto simp: op_ldi_def Let_def cond_valid_update_flags split: prod.splits)

lemma cond_valid_op_br: "cond_valid s \<Longrightarrow> cond_valid (op_br i s)"
  by (simp add: op_br_def Let_def cond_valid_def)

lemma cond_valid_op_jmp: "cond_valid s \<Longrightarrow> cond_valid (op_jmp i s)"
  by (simp add: op_jmp_def Let_def cond_valid_def)

lemma cond_valid_op_jsr: "cond_valid s \<Longrightarrow> cond_valid (op_jsr i s)"
  by (simp add: op_jsr_def Let_def cond_valid_def)

lemma cond_valid_op_st: "cond_valid s \<Longrightarrow> cond_valid (op_st i s)"
  by (simp add: op_st_def Let_def mem_write_def cond_valid_def)

lemma cond_valid_op_str: "cond_valid s \<Longrightarrow> cond_valid (op_str i s)"
  by (simp add: op_str_def Let_def mem_write_def cond_valid_def)

lemma cond_valid_op_sti: "op_sti i s h = (s', h') \<Longrightarrow> cond_valid s \<Longrightarrow> cond_valid s'"
  by (auto simp: op_sti_def Let_def mem_write_def cond_valid_def split: prod.splits
      dest: reg_mem_read)

lemma cond_valid_op_trap: "vm_of (op_trap i s h) = Some s' \<Longrightarrow> cond_valid s \<Longrightarrow> cond_valid s'"
  using cond_op_trap_valid [of i s h s'] by (auto simp: cond_valid_def)

lemma cond_valid_execute:
  assumes "vm_of (execute i s1 h1) = Some s'" and "cond_valid s1"
  shows "cond_valid s'"
proof -
  have "drop_bit 12 i = OP_BR \<or> drop_bit 12 i = OP_ADD \<or> drop_bit 12 i = OP_LD
      \<or> drop_bit 12 i = OP_ST \<or> drop_bit 12 i = OP_JSR \<or> drop_bit 12 i = OP_AND
      \<or> drop_bit 12 i = OP_LDR \<or> drop_bit 12 i = OP_STR \<or> drop_bit 12 i = OP_RTI
      \<or> drop_bit 12 i = OP_NOT \<or> drop_bit 12 i = OP_LDI \<or> drop_bit 12 i = OP_STI
      \<or> drop_bit 12 i = OP_JMP \<or> drop_bit 12 i = OP_RES \<or> drop_bit 12 i = OP_LEA
      \<or> drop_bit 12 i = OP_TRAP"
    using opcode_cases [of i] by blast
  then show ?thesis
    using assms
    apply (elim disjE)
    apply (auto simp: execute_def vm_of_def cond_valid_op_add cond_valid_op_and
        cond_valid_op_not cond_valid_op_lea cond_valid_op_br cond_valid_op_jmp
        cond_valid_op_jsr cond_valid_op_st cond_valid_op_str
        dest: cond_valid_op_ld cond_valid_op_ldr cond_valid_op_ldi cond_valid_op_sti
          cond_valid_op_trap [simplified vm_of_def] split: prod.splits)
    done
qed

lemma cond_valid_step:
  assumes "vm_of (step s h) = Some s'" and "cond_valid s"
  shows "cond_valid s'"
proof -
  obtain i s1 h1 where f: "fetch s h = (i, s1, h1)" by (cases "fetch s h")
  have "cond_valid s1" using assms(2) reg_fetch [OF f] by (simp add: cond_valid_def)
  moreover have "vm_of (execute i s1 h1) = Some s'" using assms(1) f by (simp add: step_def)
  ultimately show ?thesis using cond_valid_execute by blast
qed

lemma cond_valid_boot: "cond_valid (boot s)"
  by (simp add: boot_def cond_valid_def)

section \<open>The opcode scenarios of the specification\<close>

text \<open>
  The machine starts at \<open>PC = 0x3000\<close> with all registers 0 and \<open>COND = FL_ZRO\<close>;
  each scenario runs the one instruction placed at \<open>0x3000\<close>.
\<close>

lemma scenario_add_imm:
  "reg_after 1 (step (one_instr 0x1265) quiet_host) = Some 0x0005 \<and>
   reg_after R_COND (step (one_instr 0x1265) quiet_host) = Some FL_POS \<and>
   reg_after R_PC (step (one_instr 0x1265) quiet_host) = Some 0x3001"
  by code_simp

lemma scenario_add_minus_one:
  "reg_after 2 (step (one_instr 0x14BF) quiet_host) = Some 0xFFFF \<and>
   reg_after R_COND (step (one_instr 0x14BF) quiet_host) = Some FL_NEG"
  by code_simp

lemma scenario_and_zero:
  "reg_after 3 (step (one_instr 0x56E0) quiet_host) = Some 0 \<and>
   reg_after R_COND (step (one_instr 0x56E0) quiet_host) = Some FL_ZRO"
  by code_simp

lemma scenario_not:
  "reg_after 4 (step (one_instr 0x993F) quiet_host) = Some 0xFFFF \<and>
   reg_after R_COND (step (one_instr 0x993F) quiet_host) = Some FL_NEG"
  by code_simp

lemma scenario_lea:
  "reg_after 0 (step (one_instr 0xE002) quiet_host) = Some 0x3003 \<and>
   reg_after R_COND (step (one_instr 0xE002) quiet_host) = Some FL_POS"
  by code_simp

lemma scenario_br_on_zero:
  "reg_after R_PC (step (one_instr 0x05FF) quiet_host) = Some 0x3000"
  by code_simp

lemma scenario_halt:
  "run 1 (one_instr 0xF025) quiet_host = Some (Exited 0) \<and>
   (case step (one_instr 0xF025) quiet_host of
      Halt s h \<Rightarrow> stdout h = bytes_of (''HALT'' @ [CHR 0x0A]) | _ \<Rightarrow> False)"
  by code_simp

end
